theory Spec2Isabelle
  imports Complex_Main "HOL-Library.Word"
begin

unbundle bit_operations_syntax

chapter \<open>The model of the lab\<close>

section \<open>Numbers\<close>

text \<open>
  A JavaScript number is a double. The number tab computes on integer-valued numbers
  (bit patterns, powers of two, remainders), and on those every operation used below is
  exact at the widths of the lab, so a finite number of the tab is modelled by its integer
  value; the three non-finite values are kept apart because \<open>toUnsigned\<close> and the
  field handlers test for them. A finite number with a fractional part is a rational;
  \<open>toUnsigned\<close> on such a number is \<open>toUnsigned_rat\<close> below.
\<close>

datatype number = Num int | NaN | PosInfinity | NegInfinity

fun isFinite :: "number \<Rightarrow> bool" where
  "isFinite (Num n) = True"
| "isFinite NaN = False"
| "isFinite PosInfinity = False"
| "isFinite NegInfinity = False"

text \<open>\<open>a % b\<close> of JavaScript: the remainder has the sign of the dividend.\<close>

definition js_rem :: "int \<Rightarrow> int \<Rightarrow> int" where
  "js_rem a b = sgn a * (\<bar>a\<bar> mod \<bar>b\<bar>)"

text \<open>\<open>const clamp = (n, min, max) => Math.min(max, Math.max(min, n))\<close>\<close>

definition clamp :: "int \<Rightarrow> int \<Rightarrow> int \<Rightarrow> int" where
  "clamp n mn mx = min mx (max mn n)"

text \<open>
  \<open>toUnsigned(n, bits)\<close>: 0 for a non-finite number, the two's complement wrap for a
  negative one, and \<open>clamp(n, 0, max)\<close> otherwise. On integers the double arithmetic
  of the source is exact at the widths 8, 16 and 32 of the lab (from width 54 on,
  \<open>2 ** bits - 1\<close> is rounded and the function below is no longer the code).
\<close>

fun toUnsigned :: "number \<Rightarrow> nat \<Rightarrow> int" where
  "toUnsigned (Num n) bits =
     (let mx = 2 ^ bits - 1 in
      if n < 0 then js_rem (js_rem n (mx + 1) + (mx + 1)) (mx + 1)
      else clamp n 0 mx)"
| "toUnsigned NaN bits = 0"
| "toUnsigned PosInfinity bits = 0"
| "toUnsigned NegInfinity bits = 0"

declare toUnsigned.simps(1) [simp del]

text \<open>
  The same body on an arbitrary finite number, a rational: \<open>%\<close> subtracts the divisor
  times the quotient truncated towards zero, and \<open>clamp\<close> is \<open>Math.min\<close> of
  \<open>Math.max\<close>. The rational arithmetic is that of the doubles wherever no intermediate
  result is rounded: for every number that is not negative (no arithmetic is done), for
  every negative integer at a width up to 32, and for a fraction such as \<open>-0.5\<close>.
\<close>

definition js_rem_rat :: "rat \<Rightarrow> rat \<Rightarrow> rat" where
  "js_rem_rat a b = a - b * of_int (if a / b < 0 then \<lceil>a / b\<rceil> else \<lfloor>a / b\<rfloor>)"

definition toUnsigned_rat :: "rat \<Rightarrow> nat \<Rightarrow> rat" where
  "toUnsigned_rat n bits =
     (let mx = 2 ^ bits - 1 in
      if n < 0 then js_rem_rat (js_rem_rat n (mx + 1) + (mx + 1)) (mx + 1)
      else min mx (max 0 n))"

text \<open>
  \<open>unsignedToSigned(u, bits)\<close>: \<open>max = 2 ** bits\<close>, and \<open>u >= max / 2 ? u - max : u\<close>.
  The division is the exact one of JavaScript, hence the comparison in the rationals.
\<close>

definition unsignedToSigned :: "int \<Rightarrow> nat \<Rightarrow> int" where
  "unsignedToSigned u bits =
     (let mx = (2::int) ^ bits in
      if (of_int mx :: rat) / 2 \<le> of_int u then u - mx else u)"

section \<open>Bytes of the value\<close>

text \<open>
  \<open>bytesBE\<close>: \<open>val = unsignedValue >>> 0\<close> is the value as an unsigned 32-bit word;
  the loop runs \<open>i\<close> from \<open>totalBytes - 1\<close> down to 0 and pushes
  \<open>(val >>> (i * 8)) & 0xff\<close>. A shift count is taken modulo 32, and \<open>&\<close> yields a signed
  32-bit result. The recursion is on \<open>i + 1\<close>.
\<close>

fun bytesBE_loop :: "32 word \<Rightarrow> nat \<Rightarrow> int list" where
  "bytesBE_loop val 0 = []"
| "bytesBE_loop val (Suc i) =
     sint (drop_bit ((i * 8) mod 32) val AND 0xff) # bytesBE_loop val i"

definition bytesBE :: "int \<Rightarrow> nat \<Rightarrow> int list" where
  "bytesBE unsignedValue bits =
     bytesBE_loop (word_of_int unsignedValue) (nat \<lceil>(of_nat bits :: rat) / 8\<rceil>)"

text \<open>\<open>bytesLE = [...bytesBE].reverse()\<close>\<close>

definition bytesLE :: "int \<Rightarrow> nat \<Rightarrow> int list" where
  "bytesLE unsignedValue bits = rev (bytesBE unsignedValue bits)"

section \<open>Strings of the number fields\<close>

text \<open>
  The strings of the hex, binary and decimal fields are modelled as \<open>string\<close>. The
  white space of \<open>trim\<close> and of the regular expression class \<open>\s\<close> is, within one-byte
  characters, tab, line feed, vertical tab, form feed, carriage return, space and the
  no-break space; the dot of a regular expression matches all but line terminators.
\<close>

definition is_space :: "char \<Rightarrow> bool" where
  "is_space c = ((of_char c :: nat) \<in> {9, 10, 11, 12, 13, 32, 160})"

definition is_line_terminator :: "char \<Rightarrow> bool" where
  "is_line_terminator c = ((of_char c :: nat) \<in> {10, 13})"

definition trim :: "string \<Rightarrow> string" where
  "trim s = rev (dropWhile is_space (rev (dropWhile is_space s)))"

text \<open>
  \<open>u.toString(radix)\<close> on an integer: the digits \<open>0-9a-z\<close>, most significant first, no
  leading zero, a minus sign for a negative number. The radix is 2, 10 or 16 at every
  call of the lab.
\<close>

definition digit_char :: "nat \<Rightarrow> char" where
  "digit_char d = (if d < 10 then char_of (48 + d) else char_of (87 + d))"

function digits_of :: "nat \<Rightarrow> nat \<Rightarrow> string" where
  "digits_of radix u =
     (if radix < 2 \<or> u < radix then [digit_char u]
      else digits_of radix (u div radix) @ [digit_char (u mod radix)])"
  by pat_completeness auto
termination
  by (relation "measure (\<lambda>(radix, u). u)") auto

declare digits_of.simps [simp del]

definition toString :: "int \<Rightarrow> nat \<Rightarrow> string" where
  "toString u radix =
     (if u < 0 then CHR ''-'' # digits_of radix (nat (- u)) else digits_of radix (nat u))"

text \<open>\<open>toUpperCase\<close>, on the ASCII letters (it is applied to hexadecimal digits only).\<close>

definition toUpperCase :: "string \<Rightarrow> string" where
  "toUpperCase s =
     map (\<lambda>c. if 97 \<le> (of_char c :: nat) \<and> (of_char c :: nat) \<le> 122
              then char_of ((of_char c :: nat) - 32) else c) s"

text \<open>\<open>const padLeft = (s, len, ch = "0") => (s + "").padStart(len, ch)\<close>\<close>

definition padLeft :: "string \<Rightarrow> nat \<Rightarrow> string" where
  "padLeft s len = replicate (len - length s) (CHR ''0'') @ s"

text \<open>
  \<open>groupEvery(s, n)\<close> replaces every match of \<open>(.{n})\<close> by the match and a space, then
  trims. The global replacement scans from the left: where \<open>n\<close> characters without a line
  terminator follow, they are one match; elsewhere one character is copied.
\<close>

function group_chunks :: "string \<Rightarrow> nat \<Rightarrow> string" where
  "group_chunks s n =
     (if n = 0 then concat (map (\<lambda>c. [CHR '' '', c]) s) @ '' ''
      else if n \<le> length s \<and> (\<forall>c \<in> set (take n s). \<not> is_line_terminator c)
        then take n s @ '' '' @ group_chunks (drop n s) n
      else (case s of [] \<Rightarrow> [] | c # cs \<Rightarrow> c # group_chunks cs n))"
  by pat_completeness auto
termination
  by (relation "measure (\<lambda>(s, n). length s)") auto

declare group_chunks.simps [simp del]

definition groupEvery :: "string \<Rightarrow> nat \<Rightarrow> string" where
  "groupEvery s n = trim (group_chunks s n)"

text \<open>
  \<open>toHex\<close> and \<open>toBin\<close>, and the three field contents: the decimal field shows the
  number itself, the hex field \<open>hexValue\<close>, the binary field \<open>groupEvery(binValue, 4)\<close>.
\<close>

definition toHex :: "int \<Rightarrow> nat \<Rightarrow> string" where
  "toHex u bits = padLeft (toUpperCase (toString u 16)) (nat \<lceil>(of_nat bits :: rat) / 4\<rceil>)"

definition toBin :: "int \<Rightarrow> nat \<Rightarrow> string" where
  "toBin u bits = padLeft (toString u 2) bits"

definition decimalField :: "int \<Rightarrow> string" where
  "decimalField u = toString u 10"

definition binaryField :: "int \<Rightarrow> nat \<Rightarrow> string" where
  "binaryField u bits = groupEvery (toBin u bits) 4"

text \<open>
  \<open>parseInt(string, radix)\<close>: leading white space is skipped, then an optional sign, then
  for radix 16 (or 0) an optional \<open>0x\<close>; the longest prefix of digits of the radix is the
  number, and there is none when that prefix is empty. The result is exact below
  \<open>2^53\<close>.
\<close>

definition digit_val :: "char \<Rightarrow> nat option" where
  "digit_val c =
     (let n = (of_char c :: nat) in
      if 48 \<le> n \<and> n \<le> 57 then Some (n - 48)
      else if 97 \<le> n \<and> n \<le> 122 then Some (n - 87)
      else if 65 \<le> n \<and> n \<le> 90 then Some (n - 55)
      else None)"

definition is_digit :: "nat \<Rightarrow> char \<Rightarrow> bool" where
  "is_digit R c = (case digit_val c of Some d \<Rightarrow> d < R | None \<Rightarrow> False)"

definition digits_value :: "nat \<Rightarrow> string \<Rightarrow> nat" where
  "digits_value R Z =
     foldl (\<lambda>acc c. case digit_val c of Some d \<Rightarrow> acc * R + d | None \<Rightarrow> acc) 0 Z"

definition parseInt :: "string \<Rightarrow> nat \<Rightarrow> number" where
  "parseInt string radix =
     (let S = dropWhile is_space string;
          sign = (if take 1 S = ''-'' then - 1 else (1 :: int));
          S1 = (if take 1 S = ''+'' \<or> take 1 S = ''-'' then drop 1 S else S)
      in if radix \<noteq> 0 \<and> (radix < 2 \<or> 36 < radix) then NaN
         else
           let stripPrefix = (radix = 0 \<or> radix = 16);
               R = (if radix = 0 then 10 else radix);
               hasPrefix = (stripPrefix \<and> (take 2 S1 = ''0x'' \<or> take 2 S1 = ''0X''));
               S2 = (if hasPrefix then drop 2 S1 else S1);
               R2 = (if hasPrefix then 16 else R);
               Z = takeWhile (is_digit R2) S2
           in if Z = [] then NaN else Num (sign * int (digits_value R2 Z)))"

text \<open>
  \<open>parseFromBase(str, base)\<close>: \<open>NaN\<close> for the empty string, else
  \<open>parseInt(String(str).trim(), base)\<close>.
\<close>

definition parseFromBase :: "string \<Rightarrow> nat \<Rightarrow> number" where
  "parseFromBase str base = (if str = [] then NaN else parseInt (trim str) base)"

text \<open>\<open>str.replace(/\s+/g, "")\<close> of \<open>setFromBinary\<close>.\<close>

definition strip_spaces :: "string \<Rightarrow> string" where
  "strip_spaces str = filter (\<lambda>c. \<not> is_space c) str"

section \<open>Text, code points and UTF-8\<close>

text \<open>
  A JavaScript string is a sequence of UTF-16 code units, here natural numbers below
  \<open>2^16\<close>. The string iterator used by \<open>Array.from\<close> yields one string per code point:
  a lead surrogate followed by a trail surrogate together, every other code unit alone.
\<close>

type_synonym jsstring = "nat list"

definition is_lead :: "nat \<Rightarrow> bool" where
  "is_lead u = (0xD800 \<le> u \<and> u \<le> 0xDBFF)"

definition is_trail :: "nat \<Rightarrow> bool" where
  "is_trail u = (0xDC00 \<le> u \<and> u \<le> 0xDFFF)"

definition surrogate_pair :: "nat \<Rightarrow> nat \<Rightarrow> nat" where
  "surrogate_pair lead trail = (lead - 0xD800) * 0x400 + (trail - 0xDC00) + 0x10000"

fun string_iterator :: "jsstring \<Rightarrow> jsstring list" where
  "string_iterator [] = []"
| "string_iterator [u] = [[u]]"
| "string_iterator (u # v # us) =
     (if is_lead u \<and> is_trail v then [u, v] # string_iterator us
      else [u] # string_iterator (v # us))"

text \<open>\<open>s.codePointAt(pos)\<close>; \<open>None\<close> is \<open>undefined\<close>.\<close>

definition codePointAt :: "jsstring \<Rightarrow> nat \<Rightarrow> nat option" where
  "codePointAt s pos =
     (if length s \<le> pos then None
      else let first = s ! pos in
        if \<not> is_lead first \<or> pos + 1 = length s then Some first
        else let second = s ! (pos + 1) in
          if \<not> is_trail second then Some first
          else Some (surrogate_pair first second))"

text \<open>\<open>const codePoints = (str) => Array.from(str || "", ch => ch.codePointAt(0))\<close>\<close>

definition codePoints :: "jsstring \<Rightarrow> nat option list" where
  "codePoints str = map (\<lambda>ch. codePointAt ch 0) (string_iterator str)"

text \<open>
  \<open>new TextEncoder().encode(str)\<close> first converts the string to scalar values (a
  surrogate without its partner becomes U+FFFD), then encodes each scalar value in UTF-8.
  The masks and shifts of the encoder are written with \<open>div\<close> and \<open>mod\<close>.
\<close>

fun toUSVString :: "jsstring \<Rightarrow> nat list" where
  "toUSVString [] = []"
| "toUSVString [u] = [if is_lead u \<or> is_trail u then 0xFFFD else u]"
| "toUSVString (u # v # us) =
     (if is_lead u then
        (if is_trail v then surrogate_pair u v # toUSVString us
         else 0xFFFD # toUSVString (v # us))
      else if is_trail u then 0xFFFD # toUSVString (v # us)
      else u # toUSVString (v # us))"

definition utf8_encode :: "nat \<Rightarrow> nat list" where
  "utf8_encode cp =
     (if cp \<le> 0x7F then [cp]
      else if cp \<le> 0x7FF then [0xC0 + cp div 64, 0x80 + cp mod 64]
      else if cp \<le> 0xFFFF then [0xE0 + cp div 4096, 0x80 + cp div 64 mod 64, 0x80 + cp mod 64]
      else [0xF0 + cp div 262144, 0x80 + cp div 4096 mod 64, 0x80 + cp div 64 mod 64,
            0x80 + cp mod 64])"

definition TextEncoder_encode :: "jsstring \<Rightarrow> nat list" where
  "TextEncoder_encode str = concat (map utf8_encode (toUSVString str))"

text \<open>\<open>const utf8Bytes = (str) => Array.from(new TextEncoder().encode(str || ""))\<close>\<close>

definition utf8Bytes :: "jsstring \<Rightarrow> nat list" where
  "utf8Bytes str = TextEncoder_encode str"

text \<open>
  The UTF-8 decoder of \<open>TextDecoder\<close>, a state machine over the bytes with the number of
  continuation bytes needed and seen, the code point so far and the bounds of the next
  byte. A malformed sequence yields an error item (\<open>None\<close>); the byte that ended it is
  read again in the initial state. At the end of the input an unfinished sequence is an
  error item.
\<close>

function utf8_decoder ::
  "nat \<Rightarrow> nat \<Rightarrow> nat \<Rightarrow> nat \<Rightarrow> nat \<Rightarrow> nat list \<Rightarrow> nat option list" where
  "utf8_decoder needed seen cp lower upper [] = (if needed \<noteq> 0 then [None] else [])"
| "utf8_decoder needed seen cp lower upper (b # bs) =
     (if needed = 0 then
        (if b \<le> 0x7F then Some b # utf8_decoder 0 0 0 0x80 0xBF bs
         else if 0xC2 \<le> b \<and> b \<le> 0xDF then utf8_decoder 1 0 (b mod 32) 0x80 0xBF bs
         else if 0xE0 \<le> b \<and> b \<le> 0xEF then
           utf8_decoder 2 0 (b mod 16) (if b = 0xE0 then 0xA0 else 0x80)
             (if b = 0xED then 0x9F else 0xBF) bs
         else if 0xF0 \<le> b \<and> b \<le> 0xF4 then
           utf8_decoder 3 0 (b mod 8) (if b = 0xF0 then 0x90 else 0x80)
             (if b = 0xF4 then 0x8F else 0xBF) bs
         else None # utf8_decoder 0 0 0 0x80 0xBF bs)
      else if \<not> (lower \<le> b \<and> b \<le> upper) then
        None # utf8_decoder 0 0 0 0x80 0xBF (b # bs)
      else
        (let cp2 = cp * 64 + b mod 64 in
         if seen + 1 \<noteq> needed then utf8_decoder needed (seen + 1) cp2 0x80 0xBF bs
         else Some cp2 # utf8_decoder 0 0 0 0x80 0xBF bs))"
  by pat_completeness auto
termination
  by (relation "measure (\<lambda>(needed, seen, cp, lower, upper, bs).
        2 * length bs + (if needed = 0 then 0 else 1))") auto

declare utf8_decoder.simps(2) [simp del]

text \<open>
  A Unicode scalar value is a code point up to U+10FFFF that is not a surrogate. A text, a
  sequence of scalar values, is the JavaScript string of its UTF-16 code units: one unit
  below U+10000, a surrogate pair from there on.
\<close>

definition is_scalar_value :: "nat \<Rightarrow> bool" where
  "is_scalar_value cp = (cp \<le> 0x10FFFF \<and> \<not> (0xD800 \<le> cp \<and> cp \<le> 0xDFFF))"

definition utf16_units :: "nat \<Rightarrow> jsstring" where
  "utf16_units cp =
     (if cp < 0x10000 then [cp]
      else [0xD800 + (cp - 0x10000) div 0x400, 0xDC00 + (cp - 0x10000) mod 0x400])"

definition utf16_string :: "nat list \<Rightarrow> jsstring" where
  "utf16_string cps = concat (map utf16_units cps)"

text \<open>
  \<open>new TextDecoder(label, {fatal}).decode(bytes)\<close> for UTF-8: with \<open>fatal\<close> an error
  item throws a \<open>TypeError\<close>; without it (the default, and what \<open>new TextDecoder()\<close>
  gives) the item becomes U+FFFD. A byte order mark at the start of the output is
  dropped, and the scalar values are written as UTF-16.
\<close>

datatype exception = TypeError

definition TextDecoder_decode :: "bool \<Rightarrow> nat list \<Rightarrow> exception + jsstring" where
  "TextDecoder_decode fatal bytes =
     (let items = utf8_decoder 0 0 0 0x80 0xBF bytes in
      if fatal \<and> None \<in> set items then Inl TypeError
      else
        let scalars = map (\<lambda>item. case item of None \<Rightarrow> 0xFFFD | Some c \<Rightarrow> c) items;
            output = (if take 1 scalars = [0xFEFF] then drop 1 scalars else scalars)
        in Inr (utf16_string output))"

section \<open>The decoder tool\<close>

text \<open>
  The effect of \<open>DecoderTool\<close> on \<open>hexInput\<close>: every \<open>0x\<close> (in either case) and every
  character that is not a hexadecimal digit becomes a space, the string is trimmed and
  split at white space, empty pieces are dropped, each piece is read by \<open>parseInt(h, 16)\<close>,
  and \<open>new Uint8Array(bytes)\<close> keeps each number modulo 256. The bytes are decoded by
  \<open>new TextDecoder()\<close>, which is not fatal. The \<open>catch\<close> branch clears the decoded text and
  sets the message (written here with an ASCII hyphen).
\<close>

definition is_hex :: "char \<Rightarrow> bool" where
  "is_hex c =
     (let n = (of_char c :: nat) in
      (48 \<le> n \<and> n \<le> 57) \<or> (97 \<le> n \<and> n \<le> 102) \<or> (65 \<le> n \<and> n \<le> 70))"

fun replace_0x :: "string \<Rightarrow> string" where
  "replace_0x (c # d # cs) =
     (if c = CHR ''0'' \<and> (d = CHR ''x'' \<or> d = CHR ''X'') then CHR '' '' # replace_0x cs
      else c # replace_0x (d # cs))"
| "replace_0x cs = cs"

definition replace_non_hex :: "string \<Rightarrow> string" where
  "replace_non_hex s = map (\<lambda>c. if is_hex c then c else CHR '' '') s"

function split_ws :: "string \<Rightarrow> string \<Rightarrow> string list" where
  "split_ws cur [] = [rev cur]"
| "split_ws cur (c # cs) =
     (if is_space c then rev cur # split_ws [] (dropWhile is_space cs)
      else split_ws (c # cur) cs)"
  by pat_completeness auto
termination
  by (relation "measure (\<lambda>(cur, s). length s)")
    (auto simp: length_dropWhile_le less_Suc_eq_le)

definition toUint8 :: "number \<Rightarrow> nat" where
  "toUint8 x = (case x of Num n \<Rightarrow> nat (n mod 256) | _ \<Rightarrow> 0)"

definition hex_bytes :: "string \<Rightarrow> nat list" where
  "hex_bytes hexInput =
     map (\<lambda>h. toUint8 (parseInt h 16))
       (filter (\<lambda>t. t \<noteq> []) (split_ws [] (trim (replace_non_hex (replace_0x hexInput)))))"

record decoder_tool =
  decoded :: jsstring
  error :: string

definition DecoderTool_effect :: "string \<Rightarrow> decoder_tool" where
  "DecoderTool_effect hexInput =
     (case TextDecoder_decode False (hex_bytes hexInput) of
        Inr text \<Rightarrow> \<lparr>decoded = text, error = ''''\<rparr>
      | Inl e \<Rightarrow> \<lparr>decoded = [], error = ''Invalid UTF-8 or hex format''\<rparr>)"

section \<open>The state of the number tab\<close>

text \<open>
  The three \<open>useState\<close> cells of the number tab: \<open>bits\<close>, \<open>unsignedValue\<close> and
  \<open>challenge\<close> (\<open>null\<close> or \<open>{target, bits}\<close>), with their initial values 8, 65 and
  \<open>null\<close>.
\<close>

record challenge =
  target :: int
  ch_bits :: nat

record lab_state =
  st_bits :: nat
  st_unsignedValue :: int
  st_challenge :: "challenge option"

definition initial_state :: lab_state where
  "initial_state = \<lparr>st_bits = 8, st_unsignedValue = 65, st_challenge = None\<rparr>"

text \<open>The bit width buttons: \<open>onClick={() => setBits(b)}\<close>.\<close>

definition setBits :: "nat \<Rightarrow> lab_state \<Rightarrow> lab_state" where
  "setBits b s = s\<lparr>st_bits := b\<rparr>"

text \<open>
  The field handlers. \<open>setFromDecimal\<close> is given \<open>Number(str)\<close>, the number its string
  converts to.
\<close>

definition setFromDecimal :: "number \<Rightarrow> lab_state \<Rightarrow> lab_state" where
  "setFromDecimal n s =
     (if isFinite n then s\<lparr>st_unsignedValue := toUnsigned n (st_bits s)\<rparr> else s)"

definition setFromHex :: "string \<Rightarrow> lab_state \<Rightarrow> lab_state" where
  "setFromHex str s =
     (let n = parseFromBase str 16 in
      if isFinite n then s\<lparr>st_unsignedValue := toUnsigned n (st_bits s)\<rparr> else s)"

definition setFromBinary :: "string \<Rightarrow> lab_state \<Rightarrow> lab_state" where
  "setFromBinary str s =
     (let n = parseFromBase (strip_spaces str) 2 in
      if isFinite n then s\<lparr>st_unsignedValue := toUnsigned n (st_bits s)\<rparr> else s)"

text \<open>The range slider: \<open>setUnsignedValue(Number(e.target.value))\<close>.\<close>

definition setFromSlider :: "int \<Rightarrow> lab_state \<Rightarrow> lab_state" where
  "setFromSlider n s = s\<lparr>st_unsignedValue := n\<rparr>"

text \<open>
  \<open>toggleBit(i)\<close>: \<open>mask = 1 << (bits - 1 - i)\<close> and \<open>next = unsignedValue ^ mask\<close> are
  computed on signed 32-bit integers, the shift count modulo 32.
\<close>

definition toggleBit :: "nat \<Rightarrow> lab_state \<Rightarrow> lab_state" where
  "toggleBit i s =
     (let mask = push_bit (nat ((int (st_bits s) - 1 - int i) mod 32)) (1 :: 32 word);
          next = sint (word_of_int (st_unsignedValue s) XOR mask)
      in s\<lparr>st_unsignedValue := toUnsigned (Num next) (st_bits s)\<rparr>)"

text \<open>
  \<open>makeChallenge\<close>, given the value \<open>r\<close> that \<open>Math.random()\<close> returns:
  \<open>t = Math.floor(r * 2 ** bits)\<close>.
\<close>

definition makeChallenge :: "rat \<Rightarrow> lab_state \<Rightarrow> lab_state" where
  "makeChallenge r s =
     (let t = \<lfloor>r * 2 ^ st_bits s\<rfloor> in
      s\<lparr>st_challenge := Some \<lparr>target = t, ch_bits = st_bits s\<rparr>\<rparr>)"

text \<open>
  \<open>challengeCorrect = challenge && unsignedValue === challenge.target &&
  bits === challenge.bits\<close>
\<close>

definition challengeCorrect :: "lab_state \<Rightarrow> bool" where
  "challengeCorrect s =
     (case st_challenge s of
        None \<Rightarrow> False
      | Some c \<Rightarrow> st_unsignedValue s = target c \<and> st_bits s = ch_bits c)"

text \<open>
  \<open>useEffect(() => { setChallenge(null); }, [bits])\<close>: after a render in which \<open>bits\<close>
  differs from the render before, the challenge is reset.
\<close>

definition bits_effect :: "lab_state \<Rightarrow> lab_state \<Rightarrow> lab_state" where
  "bits_effect before after =
     (if st_bits after \<noteq> st_bits before then after\<lparr>st_challenge := None\<rparr> else after)"

text \<open>One user action: its handler, then the effect.\<close>

datatype event =
  SetBits nat
| SetFromDecimal number
| SetFromHex string
| SetFromBinary string
| SetFromSlider int
| ToggleBit nat
| MakeChallenge rat

fun on_event :: "event \<Rightarrow> lab_state \<Rightarrow> lab_state" where
  "on_event (SetBits b) s = setBits b s"
| "on_event (SetFromDecimal n) s = setFromDecimal n s"
| "on_event (SetFromHex str) s = setFromHex str s"
| "on_event (SetFromBinary str) s = setFromBinary str s"
| "on_event (SetFromSlider n) s = setFromSlider n s"
| "on_event (ToggleBit i) s = toggleBit i s"
| "on_event (MakeChallenge r) s = makeChallenge r s"

definition step :: "event \<Rightarrow> lab_state \<Rightarrow> lab_state" where
  "step e s = bits_effect s (on_event e s)"

fun run :: "event list \<Rightarrow> lab_state \<Rightarrow> lab_state" where
  "run [] s = s"
| "run (e # es) s = run es (step e s)"

text \<open>The invariant of the specification: the value lies in the range of the width.\<close>

definition in_range :: "lab_state \<Rightarrow> bool" where
  "in_range s = (0 \<le> st_unsignedValue s \<and> st_unsignedValue s \<le> 2 ^ st_bits s - 1)"

chapter \<open>Properties\<close>

section \<open>The numeric core: wrapping and the signed view\<close>

lemma js_rem_neg: "a < 0 \<Longrightarrow> 0 < b \<Longrightarrow> js_rem a b = - ((- a) mod b)"
  by (simp add: js_rem_def)

lemma js_rem_nonneg: "0 \<le> a \<Longrightarrow> 0 < b \<Longrightarrow> js_rem a b = a mod b"
  by (cases "a = 0") (simp_all add: js_rem_def)

lemma toUnsigned_neg:
  assumes "n < 0"
  shows "toUnsigned (Num n) bits = n mod 2 ^ bits"
proof -
  let ?m = "(2::int) ^ bits"
  have m: "0 < ?m" by simp
  have r: "js_rem n ?m = - ((- n) mod ?m)" using assms m by (rule js_rem_neg)
  have lt: "(- n) mod ?m < ?m" using m by (rule pos_mod_bound)
  have ge: "0 \<le> (- n) mod ?m" using m by (rule pos_mod_sign)
  have "0 \<le> - ((- n) mod ?m) + ?m" using lt by linarith
  then have "js_rem (- ((- n) mod ?m) + ?m) ?m = (- ((- n) mod ?m) + ?m) mod ?m"
    using m by (rule js_rem_nonneg)
  then have "js_rem (js_rem n ?m + ?m) ?m = (- ((- n) mod ?m) + ?m) mod ?m"
    by (simp only: r)
  also have "\<dots> = (- ((- n) mod ?m)) mod ?m" by simp
  also have "\<dots> = (- (- n)) mod ?m" by (simp only: mod_minus_eq)
  finally show ?thesis using assms by (simp add: toUnsigned.simps(1))
qed

lemma toUnsigned_nonneg:
  "0 \<le> n \<Longrightarrow> toUnsigned (Num n) bits = min (2 ^ bits - 1) n"
  by (simp add: toUnsigned.simps(1) clamp_def Let_def)

lemma toUnsigned_range: "0 \<le> toUnsigned x bits \<and> toUnsigned x bits \<le> 2 ^ bits - 1"
proof (cases x)
  case (Num n)
  show ?thesis
  proof (cases "n < 0")
    case True
    have "0 \<le> n mod 2 ^ bits" "n mod 2 ^ bits < 2 ^ bits" by simp_all
    then show ?thesis using True Num by (simp only: toUnsigned_neg) simp
  next
    case False
    then show ?thesis using Num by (simp add: toUnsigned_nonneg)
  qed
qed simp_all

lemma toUnsigned_id: "0 \<le> n \<Longrightarrow> n < 2 ^ bits \<Longrightarrow> toUnsigned (Num n) bits = n"
  by (simp add: toUnsigned_nonneg)

lemma unsignedToSigned_eq:
  assumes "0 < bits"
  shows "unsignedToSigned v bits = (if 2 ^ (bits - 1) \<le> v then v - 2 ^ bits else v)"
proof -
  obtain k where k: "bits = Suc k" using assms by (cases bits) auto
  have "(of_int ((2::int) ^ bits) :: rat) / 2 = of_int (2 ^ k)" by (simp add: k)
  then have "((of_int ((2::int) ^ bits) :: rat) / 2 \<le> of_int v) = (2 ^ k \<le> v)"
    by (simp only: of_int_le_iff)
  then show ?thesis by (simp add: unsignedToSigned_def Let_def k)
qed

lemma ceiling_of_int_divide: "\<lceil>(of_int a :: rat) / of_int b\<rceil> = - ((- a) div b)"
proof -
  have "\<lceil>(of_int a :: rat) / of_int b\<rceil> = - \<lfloor>(of_int (- a) :: rat) / of_int b\<rfloor>"
    by (simp add: ceiling_def)
  then show ?thesis by (simp only: floor_divide_of_int_eq)
qed

lemma js_rem_rat_of_int:
  assumes "0 < b"
  shows "js_rem_rat (of_int a) (of_int b) = of_int (js_rem a b)"
proof (cases "a < 0")
  case True
  have q: "(of_int a :: rat) / of_int b < 0"
    using True assms by (simp add: divide_neg_pos)
  have "js_rem_rat (of_int a) (of_int b) = of_int a - of_int b * of_int (- ((- a) div b))"
    unfolding js_rem_rat_def using q by (simp only: if_True ceiling_of_int_divide)
  also have "\<dots> = of_int (a + b * ((- a) div b))" by simp
  also have "a + b * ((- a) div b) = - ((- a) mod b)"
    using mult_div_mod_eq [of b "- a"] by linarith
  finally show ?thesis using True assms by (simp add: js_rem_neg)
next
  case False
  then have q: "\<not> (of_int a :: rat) / of_int b < 0"
    using assms by (simp add: not_less)
  have "js_rem_rat (of_int a) (of_int b) = of_int a - of_int b * of_int (a div b)"
    unfolding js_rem_rat_def using q by (simp only: if_False floor_divide_of_int_eq)
  also have "\<dots> = of_int (a - b * (a div b))" by simp
  also have "a - b * (a div b) = a mod b"
    using mult_div_mod_eq [of b a] by linarith
  finally show ?thesis using False assms by (simp add: js_rem_nonneg)
qed

lemma toUnsigned_rat_of_int:
  "toUnsigned_rat (of_int n) bits = of_int (toUnsigned (Num n) bits)"
proof (cases "n < 0")
  case True
  let ?m = "(2::int) ^ bits"
  have m: "0 < ?m" by simp
  have p: "(2::rat) ^ bits = of_int ?m" by simp
  have "js_rem_rat (js_rem_rat (of_int n) (of_int ?m) + of_int ?m) (of_int ?m)
      = js_rem_rat (of_int (js_rem n ?m + ?m)) (of_int ?m)"
    by (simp only: js_rem_rat_of_int [OF m] of_int_add)
  also have "\<dots> = of_int (js_rem (js_rem n ?m + ?m) ?m)"
    by (rule js_rem_rat_of_int [OF m])
  finally have "js_rem_rat (js_rem_rat (of_int n) (2 ^ bits) + 2 ^ bits) (2 ^ bits)
      = of_int (js_rem (js_rem n ?m + ?m) ?m)"
    by (simp only: p)
  then show ?thesis
    using True by (simp add: toUnsigned_rat_def toUnsigned.simps(1) Let_def)
next
  case False
  have g: "min (of_int m) (max 0 (of_int n)) = (of_int (min m (max 0 n)) :: rat)" for m
    by (simp add: min_def max_def)
  have "toUnsigned_rat (of_int n) bits = min (2 ^ bits - 1) (max 0 (of_int n))"
    using False by (simp add: toUnsigned_rat_def Let_def)
  also have "\<dots> = min (of_int (2 ^ bits - 1)) (max 0 (of_int n))" by simp
  also have "\<dots> = of_int (min (2 ^ bits - 1) (max 0 n))" by (rule g)
  also have "min (2 ^ bits - 1) (max 0 n) = toUnsigned (Num n) bits"
    using False by (simp add: toUnsigned.simps(1) clamp_def Let_def)
  finally show ?thesis .
qed

lemma toUnsigned_rat_nonneg: "0 \<le> q \<Longrightarrow> toUnsigned_rat q bits = min (2 ^ bits - 1) q"
  by (simp add: toUnsigned_rat_def Let_def)

text \<open>
  C3. For every width in \<open>{8, 16, 32}\<close>: a finite number \<open>n\<close> that is not negative is
  returned unchanged when it is at most \<open>2^bits - 1\<close> and is clamped to \<open>2^bits - 1\<close>
  above that (it does not wrap); a negative integer \<open>n\<close> wraps modulo \<open>2^bits\<close>; in
  both cases the result lies in \<open>[0, 2^bits - 1]\<close>; on an integer the result is that of
  \<open>toUnsigned\<close> as the handlers use it; and a non-finite input gives 0. Nothing is said
  of a negative number with a fractional part.
\<close>

theorem toUnsigned_wrap_or_clamp:
  assumes "bits \<in> {8, 16, 32}"
  shows "(0 \<le> q \<longrightarrow> toUnsigned_rat q bits = min (2 ^ bits - 1) q) \<and>
     (q < 0 \<and> q \<in> \<int> \<longrightarrow> toUnsigned_rat q bits = of_int (\<lfloor>q\<rfloor> mod 2 ^ bits)) \<and>
     (0 \<le> q \<or> q \<in> \<int> \<longrightarrow>
        0 \<le> toUnsigned_rat q bits \<and> toUnsigned_rat q bits \<le> 2 ^ bits - 1) \<and>
     toUnsigned_rat (of_int n) bits = of_int (toUnsigned (Num n) bits) \<and>
     (\<not> isFinite x \<longrightarrow> toUnsigned x bits = 0)"
proof -
  have mx: "(0::rat) \<le> 2 ^ bits - 1" by simp
  have pos: "0 \<le> q \<longrightarrow> toUnsigned_rat q bits = min (2 ^ bits - 1) q"
    by (simp add: toUnsigned_rat_nonneg)
  have neg: "q < 0 \<and> q \<in> \<int> \<longrightarrow> toUnsigned_rat q bits = of_int (\<lfloor>q\<rfloor> mod 2 ^ bits)"
  proof
    assume a: "q < 0 \<and> q \<in> \<int>"
    then obtain k where k: "q = of_int k" by (auto elim: Ints_cases)
    then have "k < 0" using a by simp
    then have "toUnsigned (Num k) bits = k mod 2 ^ bits" by (rule toUnsigned_neg)
    then show "toUnsigned_rat q bits = of_int (\<lfloor>q\<rfloor> mod 2 ^ bits)"
      by (simp add: k toUnsigned_rat_of_int)
  qed
  have rng: "0 \<le> q \<or> q \<in> \<int> \<longrightarrow>
        0 \<le> toUnsigned_rat q bits \<and> toUnsigned_rat q bits \<le> 2 ^ bits - 1"
  proof
    assume a: "0 \<le> q \<or> q \<in> \<int>"
    show "0 \<le> toUnsigned_rat q bits \<and> toUnsigned_rat q bits \<le> 2 ^ bits - 1"
    proof (cases "0 \<le> q")
      case True
      then show ?thesis using mx by (simp add: toUnsigned_rat_nonneg)
    next
      case False
      then obtain k where k: "q = of_int k" using a by (auto elim: Ints_cases)
      have r: "0 \<le> toUnsigned (Num k) bits \<and> toUnsigned (Num k) bits \<le> 2 ^ bits - 1"
        by (rule toUnsigned_range)
      have "(of_int (toUnsigned (Num k) bits) :: rat) \<le> of_int (2 ^ bits - 1)"
        using r by (simp only: of_int_le_iff)
      moreover have "(0::rat) \<le> of_int (toUnsigned (Num k) bits)" using r by simp
      ultimately show ?thesis by (simp add: k toUnsigned_rat_of_int)
    qed
  qed
  have nonfin: "\<not> isFinite x \<longrightarrow> toUnsigned x bits = 0"
    by (cases x) simp_all
  show ?thesis using pos neg rng nonfin toUnsigned_rat_of_int [of n bits] by blast
qed

theorem toUnsigned_wrap_or_clamp_witness:
  "(8::nat) \<in> {8, 16, 32} \<and>
   (- 56 :: rat) < 0 \<and> (- 56 :: rat) \<in> \<int> \<and> toUnsigned_rat (- 56) 8 = 200 \<and>
   (0::rat) \<le> 300 \<and> toUnsigned_rat 300 8 = 255 \<and>
   (0::rat) \<le> 3 / 2 \<and> toUnsigned_rat (3 / 2) 8 = 3 / 2 \<and>
   toUnsigned (Num (- 56)) 8 = 200 \<and>
   \<not> isFinite NaN \<and> toUnsigned NaN 8 = 0"
proof -
  have h: "(8::nat) \<in> {8, 16, 32}" by simp
  have i: "(- 56 :: rat) \<in> \<int>" by simp
  have f: "\<lfloor>- 56 :: rat\<rfloor> mod 2 ^ 8 = 200" by simp
  show ?thesis
    using toUnsigned_wrap_or_clamp [OF h, of "- 56" "- 56" NaN]
      toUnsigned_wrap_or_clamp [OF h, of 300 0 NaN]
      toUnsigned_wrap_or_clamp [OF h, of "3 / 2" 0 NaN] i f
    by simp
qed

text \<open>
  C3, as the specification words it, fails in two places: 256 is out of range for 8 bits
  and its modular wrap is 0, but the code clamps it to 255; and for \<open>-0.5\<close> at 8 bits
  the code returns 255.5, which is above 255.
\<close>

theorem toUnsigned_wraps_counterexample:
  "toUnsigned (Num 256) 8 = 255 \<and> toUnsigned (Num 256) 8 \<noteq> 256 mod 2 ^ 8 \<and>
   toUnsigned_rat 256 8 = 255 \<and>
   toUnsigned_rat (- 1 / 2) 8 = 511 / 2 \<and> \<not> toUnsigned_rat (- 1 / 2) 8 \<le> 2 ^ 8 - 1"
proof -
  have a: "toUnsigned (Num 256) 8 = 255" by (simp add: toUnsigned.simps(1) clamp_def)
  have a2: "toUnsigned (Num 256) 8 \<noteq> 256 mod 2 ^ 8" unfolding a by simp
  have b: "toUnsigned_rat 256 8 = 255" by (simp add: toUnsigned_rat_def)
  have c1: "\<lceil>(- 1 / 2 :: rat) / 256\<rceil> = 0" by (rule ceiling_unique) simp_all
  have c2: "\<lfloor>(511 / 2 :: rat) / 256\<rfloor> = 0" by (rule floor_unique) simp_all
  have r1: "js_rem_rat (- 1 / 2) 256 = - 1 / 2"
    unfolding js_rem_rat_def c1 by simp
  have r2: "js_rem_rat (511 / 2) 256 = 511 / 2"
    unfolding js_rem_rat_def c2 by simp
  have "js_rem_rat (js_rem_rat (- 1 / 2) 256 + 256) 256 = 511 / 2"
    unfolding r1 using r2 by simp
  then have c: "toUnsigned_rat (- 1 / 2) 8 = 511 / 2"
    by (simp add: toUnsigned_rat_def)
  have d: "\<not> toUnsigned_rat (- 1 / 2) 8 \<le> 2 ^ 8 - 1" unfolding c by simp
  show ?thesis by (intro conjI) (rule a a2 b c d)+
qed

text \<open>
  C6. For every width of at least one bit (so for 8, 16 and 32) and every unsigned
  \<open>v\<close> in \<open>[0, 2^bits - 1]\<close>: \<open>unsignedToSigned v bits\<close> is \<open>v - 2^bits\<close> when
  \<open>v \<ge> 2^(bits-1)\<close> and \<open>v\<close> otherwise; the result lies in
  \<open>[-2^(bits-1), 2^(bits-1) - 1]\<close> and is non-negative exactly when \<open>v < 2^(bits-1)\<close>.
\<close>

theorem unsignedToSigned_twos_complement:
  assumes "0 < bits" and "0 \<le> v" and "v \<le> 2 ^ bits - 1"
  shows "unsignedToSigned v bits = (if 2 ^ (bits - 1) \<le> v then v - 2 ^ bits else v) \<and>
    - (2 ^ (bits - 1)) \<le> unsignedToSigned v bits \<and>
    unsignedToSigned v bits \<le> 2 ^ (bits - 1) - 1 \<and>
    (0 \<le> unsignedToSigned v bits \<longleftrightarrow> v < 2 ^ (bits - 1))"
proof -
  obtain k where k: "bits = Suc k" using assms(1) by (cases bits) auto
  have p: "(2::int) ^ bits = 2 * 2 ^ k" and q: "(2::int) ^ (bits - 1) = 2 ^ k"
    by (simp_all add: k)
  have e: "unsignedToSigned v bits = (if 2 ^ (bits - 1) \<le> v then v - 2 ^ bits else v)"
    using assms(1) by (rule unsignedToSigned_eq)
  have lo: "- (2 ^ (bits - 1)) \<le> unsignedToSigned v bits"
    using assms(2) unfolding e p q by simp
  have hi: "unsignedToSigned v bits \<le> 2 ^ (bits - 1) - 1"
    using assms(3) unfolding e p q by simp
  have sg: "0 \<le> unsignedToSigned v bits \<longleftrightarrow> v < 2 ^ (bits - 1)"
    using assms(2,3) unfolding e p q by auto
  show ?thesis using e lo hi sg by blast
qed

theorem unsignedToSigned_twos_complement_witness:
  "(0::nat) < 8 \<and> (0::int) \<le> 200 \<and> (200::int) \<le> 2 ^ 8 - 1 \<and>
   unsignedToSigned 200 8 = -56 \<and> \<not> 0 \<le> unsignedToSigned 200 8"
proof -
  have h: "(0::nat) < 8" "(0::int) \<le> 200" "(200::int) \<le> 2 ^ 8 - 1" by simp_all
  show ?thesis
    using unsignedToSigned_twos_complement [OF h]
    by simp
qed

lemma signed_200: "unsignedToSigned 200 8 = - 56"
  by (simp add: unsignedToSigned_def)

section \<open>Bytes and bits\<close>

lemma sint_eq_uint_small:
  fixes w :: "32 word"
  assumes "uint w < 2 ^ 31"
  shows "sint w = uint w"
proof -
  have "sint w = signed_take_bit 31 (uint w)" by (simp add: sint_uint)
  also have "\<dots> = uint w"
    using assms by (intro signed_take_bit_int_eq_self) (simp_all add: order_trans [of _ 0])
  finally show ?thesis .
qed

lemma sint_mod: "sint (w :: 32 word) mod 2 ^ 32 = uint w"
proof -
  have "uint (word_of_int (sint w) :: 32 word) = sint w mod 2 ^ LENGTH(32)"
    by (rule uint_word_of_int)
  moreover have "(word_of_int (sint w) :: 32 word) = w" by simp
  ultimately show ?thesis by simp
qed

lemma toUnsigned_sint_32: "toUnsigned (Num (sint (w :: 32 word))) 32 = uint w"
proof (cases "sint w < 0")
  case True
  then show ?thesis by (simp only: toUnsigned_neg sint_mod)
next
  case False
  have "sint w < 2 ^ 31" using sint_lt [of w] by simp
  then have lt: "sint w < 2 ^ 32" by simp
  have "sint w mod 2 ^ 32 = sint w" using False lt by simp
  then have "sint w = uint w" by (simp only: sint_mod)
  moreover have "toUnsigned (Num (sint w)) 32 = sint w"
    using False lt by (simp add: toUnsigned_id)
  ultimately show ?thesis by simp
qed

lemma uint_word_of_int_32:
  "0 \<le> v \<Longrightarrow> v < 2 ^ 32 \<Longrightarrow> uint (word_of_int v :: 32 word) = v"
  by (simp add: uint_word_of_int)

lemma byte_of_word:
  fixes w :: "32 word"
  shows "sint (drop_bit k w AND 0xff) = drop_bit k (uint w) AND 0xff"
proof -
  have "take_bit 32 (uint w) = uint w"
    using uint_lt2p [of w] by (simp add: take_bit_int_eq_self)
  then have u: "uint (drop_bit k w AND 0xff) = drop_bit k (uint w) AND 0xff"
    by (simp add: uint_and unsigned_drop_bit_eq)
  have "drop_bit k (uint w) AND 0xff \<le> (0xff :: int)"
    by (rule AND_upper2) simp
  then have "uint (drop_bit k w AND 0xff) < 2 ^ 31" by (simp only: u) simp
  then show ?thesis by (simp only: sint_eq_uint_small u)
qed

lemma bytesBE_loop_length: "length (bytesBE_loop val n) = n"
  by (induction n) simp_all

lemma bytesBE_loop_nth:
  "i < n \<Longrightarrow> rev (bytesBE_loop val n) ! i = sint (drop_bit ((i * 8) mod 32) val AND 0xff)"
proof (induction n)
  case 0
  then show ?case by simp
next
  case (Suc n)
  show ?case
  proof (cases "i = n")
    case True
    then show ?thesis by (simp add: nth_append bytesBE_loop_length)
  next
    case False
    then have "i < n" using Suc.prems by simp
    then show ?thesis using Suc.IH by (simp add: nth_append bytesBE_loop_length)
  qed
qed

text \<open>
  C7. For every width in \<open>{8, 16, 32}\<close> and every unsigned \<open>v\<close> in range, \<open>bytesBE\<close>
  has exactly \<open>ceil(bits / 8)\<close> bytes, most significant first: the byte at position \<open>i\<close>
  counted from the least significant end is \<open>(v >> (8 * i)) & 0xFF\<close>; and \<open>bytesLE\<close> is
  the reverse of \<open>bytesBE\<close>.
\<close>

theorem bytesBE_bytes:
  assumes "bits \<in> {8, 16, 32}" and "0 \<le> v" and "v \<le> 2 ^ bits - 1"
  shows "length (bytesBE v bits) = nat \<lceil>(of_nat bits :: rat) / 8\<rceil> \<and>
     (\<forall>i < length (bytesBE v bits).
        rev (bytesBE v bits) ! i = drop_bit (8 * i) v AND 0xff \<and>
        bytesBE v bits ! (length (bytesBE v bits) - 1 - i) = drop_bit (8 * i) v AND 0xff) \<and>
     bytesLE v bits = rev (bytesBE v bits)"
proof -
  let ?n = "nat \<lceil>(of_nat bits :: rat) / 8\<rceil>"
  have n: "?n \<le> 4" using assms(1) by auto
  have "(2::int) ^ bits \<le> 2 ^ 32" using assms(1) by auto
  then have v32: "v < 2 ^ 32" using assms(3) by linarith
  have u: "uint (word_of_int v :: 32 word) = v"
    using assms(2) v32 by (rule uint_word_of_int_32)
  have len: "length (bytesBE v bits) = ?n"
    by (simp add: bytesBE_def bytesBE_loop_length)
  have nth: "rev (bytesBE v bits) ! i = drop_bit (8 * i) v AND 0xff" if "i < ?n" for i
  proof -
    have "i * 8 < 32" using that n by linarith
    then have m: "(i * 8) mod 32 = 8 * i" by simp
    show ?thesis
      unfolding bytesBE_def using that
      by (simp only: bytesBE_loop_nth m byte_of_word u)
  qed
  have nth2: "bytesBE v bits ! (length (bytesBE v bits) - 1 - i) = drop_bit (8 * i) v AND 0xff"
    if "i < ?n" for i
  proof -
    have "rev (bytesBE v bits) ! i = bytesBE v bits ! (length (bytesBE v bits) - Suc i)"
      using that len by (simp add: rev_nth)
    then show ?thesis using nth [OF that] by simp
  qed
  show ?thesis using len nth nth2 by (simp add: bytesLE_def)
qed

theorem bytesBE_bytes_witness:
  "(16::nat) \<in> {8, 16, 32} \<and> (0::int) \<le> 65000 \<and> (65000::int) \<le> 2 ^ 16 - 1 \<and>
   length (bytesBE 65000 16) = 2 \<and> (0::nat) < length (bytesBE 65000 16) \<and>
   rev (bytesBE 65000 16) ! 0 = 232 \<and> bytesLE 65000 16 = rev (bytesBE 65000 16)"
proof -
  have h: "(16::nat) \<in> {8, 16, 32}" "(0::int) \<le> 65000" "(65000::int) \<le> 2 ^ 16 - 1"
    by simp_all
  have d: "drop_bit (8 * 0) (65000::int) AND 0xff = 232" by simp
  show ?thesis using bytesBE_bytes [OF h] d by simp
qed

text \<open>The example of the specification: 65000 at 16 bits.\<close>

lemma bytes_65000: "bytesBE 65000 16 = [253, 232] \<and> bytesLE 65000 16 = [232, 253]"
proof -
  have n: "nat \<lceil>(of_nat 16 :: rat) / 8\<rceil> = Suc (Suc 0)" by simp
  have w: "(word_of_int 65000 :: 32 word) = 65000" by simp
  have l: "bytesBE_loop (65000 :: 32 word) (Suc (Suc 0)) = [253, 232]" by simp
  show ?thesis unfolding bytesLE_def bytesBE_def n w l by simp
qed

lemma toUnsigned_sint:
  fixes x :: "32 word"
  assumes "bits \<le> 32" and "uint x < 2 ^ bits"
  shows "toUnsigned (Num (sint x)) bits = uint x"
proof (cases "bits = 32")
  case True
  then show ?thesis by (simp only: toUnsigned_sint_32)
next
  case False
  then have "bits \<le> 31" using assms(1) by simp
  then have "(2::int) ^ bits \<le> 2 ^ 31" by (rule power_increasing) simp
  then have "uint x < 2 ^ 31" using assms(2) by linarith
  then have "sint x = uint x" by (rule sint_eq_uint_small)
  then show ?thesis using assms(2) by (simp add: toUnsigned_id)
qed

lemma uint_mask_bit:
  assumes "k < 32"
  shows "uint (push_bit k (1 :: 32 word)) = 2 ^ k"
proof -
  have "uint (push_bit k (1 :: 32 word)) = take_bit LENGTH(32) (push_bit k (uint (1 :: 32 word)))"
    by (rule unsigned_push_bit_eq)
  also have "\<dots> = take_bit 32 ((2::int) ^ k)" by (simp add: push_bit_eq_mult)
  also have "\<dots> = 2 ^ k"
  proof (rule take_bit_int_eq_self)
    show "(0::int) \<le> 2 ^ k" by simp
    show "(2::int) ^ k < 2 ^ 32" using assms by (rule power_strict_increasing) simp
  qed
  finally show ?thesis .
qed

lemma toggleBit_value:
  assumes "st_bits s \<le> 32" and "0 \<le> st_unsignedValue s"
    and "st_unsignedValue s \<le> 2 ^ st_bits s - 1" and "i < st_bits s"
  shows "st_unsignedValue (toggleBit i s) = st_unsignedValue s XOR 2 ^ (st_bits s - 1 - i)"
    and "0 \<le> st_unsignedValue (toggleBit i s)"
    and "st_unsignedValue (toggleBit i s) \<le> 2 ^ st_bits s - 1"
proof -
  let ?b = "st_bits s" and ?v = "st_unsignedValue s"
  let ?k = "?b - 1 - i"
  have k: "?k < ?b" using assms(4) by simp
  then have k32: "?k < 32" using assms(1) by simp
  have "(int ?b - 1 - int i) = int ?k" using assms(4) by simp
  then have sh: "nat ((int ?b - 1 - int i) mod 32) = ?k" using k32 by simp
  have "(2::int) ^ ?b \<le> 2 ^ 32" using assms(1) by (intro power_increasing) simp_all
  then have "?v < 2 ^ 32" using assms(3) by linarith
  then have u: "uint (word_of_int ?v :: 32 word) = ?v"
    using assms(2) by (simp add: uint_word_of_int_32)
  have x: "uint (word_of_int ?v XOR push_bit ?k (1 :: 32 word)) = ?v XOR 2 ^ ?k"
    using k32 by (simp only: uint_xor u uint_mask_bit)
  have "(2::int) ^ ?k < 2 ^ ?b" using k by (intro power_strict_increasing) simp_all
  then have lt: "?v XOR 2 ^ ?k < 2 ^ ?b"
    using assms(2,3) by (intro XOR_upper) simp_all
  have ge: "0 \<le> ?v XOR 2 ^ ?k" using assms(2) by simp
  have "toUnsigned (Num (sint (word_of_int ?v XOR push_bit ?k (1 :: 32 word)))) ?b = ?v XOR 2 ^ ?k"
    using assms(1) lt by (simp only: toUnsigned_sint x)
  then show e: "st_unsignedValue (toggleBit i s) = ?v XOR 2 ^ ?k"
    by (simp add: toggleBit_def Let_def sh)
  show "0 \<le> st_unsignedValue (toggleBit i s)" using ge by (simp only: e)
  show "st_unsignedValue (toggleBit i s) \<le> 2 ^ st_bits s - 1" using lt by (simp only: e)
qed

lemma toggleBit_fields:
  "st_bits (toggleBit i s) = st_bits s" "st_challenge (toggleBit i s) = st_challenge s"
  by (simp_all add: toggleBit_def Let_def)

text \<open>
  C10. For every width in \<open>{8, 16, 32}\<close>, every unsigned value in range and every bit
  index \<open>i\<close> of the panel (\<open>i < bits\<close>): \<open>toggleBit i\<close> flips exactly bit
  \<open>bits - 1 - i\<close> of the value, the new value is again in range, and toggling twice
  restores the state, also for the sign bit at 32 bits, where the exclusive or is
  negative as a signed 32-bit integer.
\<close>

theorem toggleBit_flips_one_bit:
  assumes "st_bits s \<in> {8, 16, 32}" and "0 \<le> st_unsignedValue s"
    and "st_unsignedValue s \<le> 2 ^ st_bits s - 1" and "i < st_bits s"
  shows "(\<forall>k. bit (st_unsignedValue (toggleBit i s)) k =
            (if k = st_bits s - 1 - i then \<not> bit (st_unsignedValue s) k
             else bit (st_unsignedValue s) k)) \<and>
     0 \<le> st_unsignedValue (toggleBit i s) \<and>
     st_unsignedValue (toggleBit i s) \<le> 2 ^ st_bits s - 1 \<and>
     toggleBit i (toggleBit i s) = s"
proof -
  have b: "st_bits s \<le> 32" using assms(1) by auto
  note t = toggleBit_value [OF b assms(2) assms(3) assms(4)]
  have flip: "bit (st_unsignedValue (toggleBit i s)) k =
            (if k = st_bits s - 1 - i then \<not> bit (st_unsignedValue s) k
             else bit (st_unsignedValue s) k)" for k
    by (simp add: t(1) bit_xor_iff bit_exp_iff)
  let ?s = "toggleBit i s"
  have b2: "st_bits ?s \<le> 32" and i2: "i < st_bits ?s"
    using b assms(4) by (simp_all add: toggleBit_fields)
  have r2: "st_unsignedValue ?s \<le> 2 ^ st_bits ?s - 1"
    using t(3) by (simp add: toggleBit_fields)
  have "st_unsignedValue (toggleBit i ?s) = st_unsignedValue ?s XOR 2 ^ (st_bits ?s - 1 - i)"
    using b2 t(2) r2 i2 by (rule toggleBit_value(1))
  then have v: "st_unsignedValue (toggleBit i ?s) = st_unsignedValue s"
    by (simp add: t(1) toggleBit_fields xor.assoc)
  have "toggleBit i ?s = s"
    using v by (simp add: toggleBit_def Let_def)
  then show ?thesis using flip t(2) t(3) by blast
qed

theorem toggleBit_flips_one_bit_witness:
  "st_bits \<lparr>st_bits = 32, st_unsignedValue = 65, st_challenge = None\<rparr> \<in> {8, 16, 32} \<and>
   st_unsignedValue (toggleBit 0 \<lparr>st_bits = 32, st_unsignedValue = 65, st_challenge = None\<rparr>)
     \<le> 2 ^ 32 - 1 \<and>
   toggleBit 0 (toggleBit 0 \<lparr>st_bits = 32, st_unsignedValue = 65, st_challenge = None\<rparr>)
     = \<lparr>st_bits = 32, st_unsignedValue = 65, st_challenge = None\<rparr>"
  using toggleBit_flips_one_bit
    [of "\<lparr>st_bits = 32, st_unsignedValue = 65, st_challenge = None\<rparr>" 0]
  by simp

section \<open>The challenge and the width\<close>

lemma bits_effect_bits: "st_bits (bits_effect before after) = st_bits after"
  by (simp add: bits_effect_def)

lemma bits_effect_value: "st_unsignedValue (bits_effect before after) = st_unsignedValue after"
  by (simp add: bits_effect_def)

text \<open>
  C9. After any step that changes the bit width the stored challenge is \<open>null\<close>, and the
  challenge is judged correct exactly when there is a stored challenge whose target is
  the current unsigned value and whose width is the active width. Both hold in every
  state, hence in every reachable one.
\<close>

theorem challenge_reset_and_correct:
  "(st_bits (step e s) \<noteq> st_bits s \<longrightarrow> st_challenge (step e s) = None) \<and>
   (challengeCorrect s \<longleftrightarrow>
      (\<exists>c. st_challenge s = Some c \<and> st_unsignedValue s = target c \<and> st_bits s = ch_bits c))"
proof -
  have "st_bits (step e s) \<noteq> st_bits s \<longrightarrow> st_challenge (step e s) = None"
    by (simp add: step_def bits_effect_def)
  moreover have "challengeCorrect s \<longleftrightarrow>
      (\<exists>c. st_challenge s = Some c \<and> st_unsignedValue s = target c \<and> st_bits s = ch_bits c)"
    by (cases "st_challenge s") (simp_all add: challengeCorrect_def)
  ultimately show ?thesis by blast
qed

theorem challenge_reset_and_correct_witness:
  "st_bits (step (SetBits 16) (step (MakeChallenge (1 / 2)) initial_state))
     \<noteq> st_bits (step (MakeChallenge (1 / 2)) initial_state) \<and>
   st_challenge (step (MakeChallenge (1 / 2)) initial_state)
     = Some \<lparr>target = 128, ch_bits = 8\<rparr> \<and>
   st_challenge (step (SetBits 16) (step (MakeChallenge (1 / 2)) initial_state)) = None \<and>
   \<not> challengeCorrect (step (MakeChallenge (1 / 2)) initial_state)"
  using challenge_reset_and_correct
    [of "SetBits 16" "step (MakeChallenge (1 / 2)) initial_state"]
  by (simp add: step_def bits_effect_def makeChallenge_def setBits_def initial_state_def)

text \<open>
  In the render between the click on a width button and the effect, the challenge is
  still stored; it is not judged correct there, since its width is the old one.
\<close>

lemma stale_challenge_not_correct:
  assumes "st_challenge s = Some c" and "ch_bits c = st_bits s" and "b \<noteq> st_bits s"
  shows "\<not> challengeCorrect (on_event (SetBits b) s)"
  using assms by (simp add: challengeCorrect_def setBits_def)

section \<open>The range of the value\<close>

text \<open>
  Every handler that writes the value writes \<open>toUnsigned(..., bits)\<close>, so on the
  integer-valued entries of this state model the value stays in range under every action
  but a change of the width (the slider delivers a value between its \<open>min\<close> and
  \<open>max\<close>); a change to a larger width keeps it in range as well.
\<close>

lemma set_value_in_range:
  "in_range (s\<lparr>st_unsignedValue := toUnsigned n (st_bits s)\<rparr>)"
  using toUnsigned_range [of n "st_bits s"] by (simp add: in_range_def)

lemma in_range_kept_by_value_events:
  assumes "in_range s" and "\<forall>b. e \<noteq> SetBits b"
    and "\<forall>n. e = SetFromSlider n \<longrightarrow> 0 \<le> n \<and> n \<le> 2 ^ st_bits s - 1"
  shows "in_range (step e s)"
proof (cases e)
  case (SetBits b)
  then show ?thesis using assms(2) by simp
next
  case (SetFromDecimal n)
  then show ?thesis
    using assms(1) by (simp add: step_def bits_effect_def setFromDecimal_def set_value_in_range)
next
  case (SetFromHex str)
  then show ?thesis
    using assms(1)
    by (simp add: step_def bits_effect_def setFromHex_def Let_def set_value_in_range)
next
  case (SetFromBinary str)
  then show ?thesis
    using assms(1)
    by (simp add: step_def bits_effect_def setFromBinary_def Let_def set_value_in_range)
next
  case (SetFromSlider n)
  then show ?thesis
    using assms(3) by (simp add: step_def bits_effect_def setFromSlider_def in_range_def)
next
  case (ToggleBit i)
  then show ?thesis
    by (simp add: step_def bits_effect_def toggleBit_def Let_def set_value_in_range)
next
  case (MakeChallenge r)
  then show ?thesis
    using assms(1) by (simp add: step_def bits_effect_def makeChallenge_def Let_def in_range_def)
qed

lemma in_range_kept_by_widening:
  assumes "in_range s" and "st_bits s \<le> b"
  shows "in_range (step (SetBits b) s)"
proof -
  have p: "(2::int) ^ st_bits s \<le> 2 ^ b"
    using assms(2) by (intro power_increasing) simp_all
  have "st_unsignedValue s \<le> 2 ^ st_bits s - 1"
    using assms(1) unfolding in_range_def by (rule conjunct2)
  then have "st_unsignedValue s \<le> 2 ^ b - 1" using p by linarith
  then show ?thesis
    using assms(1) by (simp add: step_def bits_effect_def setBits_def in_range_def)
qed

lemma step_SetBits_value: "st_unsignedValue (step (SetBits b) s) = st_unsignedValue s"
  by (simp add: step_def bits_effect_value setBits_def)

lemma setFromDecimal_in_range: "isFinite n \<Longrightarrow> in_range (step (SetFromDecimal n) s)"
  using toUnsigned_range [of n "st_bits s"]
  by (simp add: step_def bits_effect_def setFromDecimal_def in_range_def)

text \<open>
  C2. The state after widening to 16 bits, entering 65000 and narrowing to 8 bits: the
  width button changes \<open>bits\<close> alone, the value stays 65000 and is out of the range of 8
  bits.
\<close>

theorem narrowing_leaves_value_out_of_range:
  "run [SetBits 16, SetFromDecimal (Num 65000), SetBits 8] initial_state
     = \<lparr>st_bits = 8, st_unsignedValue = 65000, st_challenge = None\<rparr> \<and>
   \<not> in_range (run [SetBits 16, SetFromDecimal (Num 65000), SetBits 8] initial_state)"
  by (simp add: step_def bits_effect_def setBits_def setFromDecimal_def initial_state_def
      in_range_def toUnsigned_id)

section \<open>Code points\<close>

lemma scalar_unit:
  assumes "is_scalar_value cp" and "cp < 0x10000"
  shows "\<not> is_lead cp" and "\<not> is_trail cp"
  using assms by (auto simp add: is_scalar_value_def is_lead_def is_trail_def)

lemma scalar_pair:
  assumes "is_scalar_value cp" and "\<not> cp < 0x10000"
  shows "is_lead (0xD800 + (cp - 0x10000) div 0x400)"
    and "is_trail (0xDC00 + (cp - 0x10000) mod 0x400)"
    and "surrogate_pair (0xD800 + (cp - 0x10000) div 0x400) (0xDC00 + (cp - 0x10000) mod 0x400) = cp"
proof -
  have "cp - 0x10000 < 0x100000" using assms by (simp add: is_scalar_value_def)
  then have "(cp - 0x10000) div 0x400 < 0x400" by simp
  then show "is_lead (0xD800 + (cp - 0x10000) div 0x400)" by (simp add: is_lead_def)
  have "(cp - 0x10000) mod 0x400 < 0x400" by simp
  then show "is_trail (0xDC00 + (cp - 0x10000) mod 0x400)" by (simp add: is_trail_def)
  show "surrogate_pair (0xD800 + (cp - 0x10000) div 0x400) (0xDC00 + (cp - 0x10000) mod 0x400) = cp"
    using assms(2) by (simp add: surrogate_pair_def)
qed

lemma string_iterator_units:
  assumes "is_scalar_value cp"
  shows "string_iterator (utf16_units cp @ rest) = utf16_units cp # string_iterator rest"
proof (cases "cp < 0x10000")
  case True
  then show ?thesis
    using scalar_unit [OF assms True] by (cases rest) (simp_all add: utf16_units_def)
next
  case False
  then show ?thesis
    using scalar_pair(1,2) [OF assms False] by (simp add: utf16_units_def)
qed

lemma codePointAt_units:
  assumes "is_scalar_value cp"
  shows "codePointAt (utf16_units cp) 0 = Some cp"
proof (cases "cp < 0x10000")
  case True
  then show ?thesis by (simp add: utf16_units_def codePointAt_def)
next
  case False
  then show ?thesis
    using scalar_pair [OF assms False] by (simp add: utf16_units_def codePointAt_def Let_def)
qed

lemma codePoints_utf16_string:
  "\<forall>cp \<in> set cps. is_scalar_value cp \<Longrightarrow> codePoints (utf16_string cps) = map Some cps"
proof (induction cps)
  case Nil
  then show ?case by (simp add: codePoints_def utf16_string_def)
next
  case (Cons cp cps)
  then have cp: "is_scalar_value cp" and IH: "codePoints (utf16_string cps) = map Some cps"
    by simp_all
  have "codePoints (utf16_string (cp # cps))
      = codePointAt (utf16_units cp) 0 # codePoints (utf16_string cps)"
    by (simp add: codePoints_def utf16_string_def string_iterator_units [OF cp])
  then show ?case by (simp add: IH codePointAt_units [OF cp])
qed

lemma length_codePoints:
  "\<forall>cp \<in> set cps. is_scalar_value cp \<Longrightarrow> length (codePoints (utf16_string cps)) = length cps"
  by (simp add: codePoints_utf16_string)

lemma toUSVString_units:
  assumes "is_scalar_value cp"
  shows "toUSVString (utf16_units cp @ rest) = cp # toUSVString rest"
proof (cases "cp < 0x10000")
  case True
  then show ?thesis
    using scalar_unit [OF assms True] by (cases rest) (simp_all add: utf16_units_def)
next
  case False
  then show ?thesis
    using scalar_pair [OF assms False] by (simp add: utf16_units_def)
qed

lemma toUSVString_utf16_string:
  "\<forall>cp \<in> set cps. is_scalar_value cp \<Longrightarrow> toUSVString (utf16_string cps) = cps"
proof (induction cps)
  case Nil
  then show ?case by (simp add: utf16_string_def)
next
  case (Cons cp cps)
  then show ?case using toUSVString_units [of cp "utf16_string cps"]
    by (simp add: utf16_string_def)
qed

text \<open>
  C8. For every text, a sequence of Unicode scalar values, \<open>codePoints\<close> of its string
  has exactly one entry per scalar value, in text order: a scalar value above U+FFFF,
  two code units in the string, is one entry.
\<close>

theorem codePoints_scalar_values:
  assumes "\<forall>cp \<in> set cps. is_scalar_value cp"
  shows "codePoints (utf16_string cps) = map Some cps \<and>
     length (codePoints (utf16_string cps)) = length cps"
  using assms by (simp add: codePoints_utf16_string)

theorem codePoints_scalar_values_witness:
  "is_scalar_value 72 \<and> is_scalar_value 105 \<and> is_scalar_value 0x1F44B \<and>
   utf16_string [72, 105, 0x1F44B] = [72, 105, 0xD83D, 0xDC4B] \<and>
   codePoints [72, 105, 0xD83D, 0xDC4B] = [Some 72, Some 105, Some 0x1F44B]"
proof -
  have h: "\<forall>cp \<in> set [72, 105, 0x1F44B :: nat]. is_scalar_value cp"
    by (simp add: is_scalar_value_def)
  have u: "utf16_string [72, 105, 0x1F44B] = [72, 105, 0xD83D, 0xDC4B]"
    by (simp add: utf16_string_def utf16_units_def)
  show ?thesis using h u codePoints_scalar_values [OF h] by simp
qed

text \<open>The example of the specification, and a surrogate without its partner.\<close>

lemma codePoints_Hi: "codePoints (map of_char ''Hi'') = [Some 72, Some 105]"
  by (simp add: codePoints_def codePointAt_def is_lead_def)

lemma utf8Bytes_Hi: "utf8Bytes (map of_char ''Hi'') = [0x48, 0x69]"
  by (simp add: utf8Bytes_def TextEncoder_encode_def utf8_encode_def is_lead_def is_trail_def)

lemma codePoints_lone_surrogate: "codePoints [0xD83D] = [Some 0xD83D]"
  by (simp add: codePoints_def codePointAt_def)

section \<open>UTF-8: decoding what was encoded\<close>

lemma mod_offset: "m < k \<Longrightarrow> (j * k + m) mod k = (m::nat)"
  by simp

lemma decoder_continue:
  assumes "needed \<noteq> 0" and "m < 64" and "lower \<le> 0x80 + m" and "0x80 + m \<le> upper"
  shows "utf8_decoder needed seen cp lower upper ((0x80 + m) # bs) =
     (if seen + 1 \<noteq> needed then utf8_decoder needed (seen + 1) (cp * 64 + m) 0x80 0xBF bs
      else Some (cp * 64 + m) # utf8_decoder 0 0 0 0x80 0xBF bs)"
proof -
  have "(0x80 + m) mod 64 = m" using mod_offset [OF assms(2), of 2] by simp
  then show ?thesis using assms(1,3,4) by (simp add: utf8_decoder.simps(2) Let_def)
qed

lemma decoder_continue_plain:
  assumes "needed \<noteq> 0" and "m < 64"
  shows "utf8_decoder needed seen cp 0x80 0xBF ((0x80 + m) # bs) =
     (if seen + 1 \<noteq> needed then utf8_decoder needed (seen + 1) (cp * 64 + m) 0x80 0xBF bs
      else Some (cp * 64 + m) # utf8_decoder 0 0 0 0x80 0xBF bs)"
  using assms by (intro decoder_continue) simp_all

lemma decoder_1:
  assumes "b \<le> 0x7F"
  shows "utf8_decoder 0 0 0 0x80 0xBF (b # rest) = Some b # utf8_decoder 0 0 0 0x80 0xBF rest"
  using assms by (simp add: utf8_decoder.simps(2))

lemma decoder_2:
  assumes "2 \<le> a" and "a < 32" and "m < 64"
  shows "utf8_decoder 0 0 0 0x80 0xBF ((0xC0 + a) # (0x80 + m) # rest)
     = Some (a * 64 + m) # utf8_decoder 0 0 0 0x80 0xBF rest"
proof -
  have am: "(0xC0 + a) mod 32 = a" using mod_offset [OF assms(2), of 6] by simp
  have "utf8_decoder 0 0 0 0x80 0xBF ((0xC0 + a) # bs) = utf8_decoder 1 0 a 0x80 0xBF bs" for bs
    using assms(1,2) by (simp add: utf8_decoder.simps(2) am)
  then show ?thesis using assms(3) by (simp add: decoder_continue_plain)
qed

lemma decoder_3:
  assumes "a < 16" and "b < 64" and "m < 64"
    and "a = 0 \<longrightarrow> 32 \<le> b" and "a = 13 \<longrightarrow> b < 32"
  shows "utf8_decoder 0 0 0 0x80 0xBF ((0xE0 + a) # (0x80 + b) # (0x80 + m) # rest)
     = Some ((a * 64 + b) * 64 + m) # utf8_decoder 0 0 0 0x80 0xBF rest"
proof -
  let ?lo = "if a = 0 then 0xA0 else (0x80::nat)"
  let ?hi = "if a = 13 then 0x9F else (0xBF::nat)"
  have am: "(0xE0 + a) mod 16 = a" using mod_offset [OF assms(1), of 14] by simp
  have lo: "?lo \<le> 0x80 + b" using assms(4) by simp
  have hi: "0x80 + b \<le> ?hi" using assms(2,5) by auto
  have "utf8_decoder 0 0 0 0x80 0xBF ((0xE0 + a) # bs) = utf8_decoder 2 0 a ?lo ?hi bs" for bs
    using assms(1) by (simp add: utf8_decoder.simps(2) am)
  moreover have "utf8_decoder 2 0 a ?lo ?hi ((0x80 + b) # bs)
      = utf8_decoder 2 1 (a * 64 + b) 0x80 0xBF bs" for bs
    using decoder_continue [OF _ assms(2) lo hi, of 2 0 a bs] by simp
  ultimately show ?thesis using assms(3) by (simp add: decoder_continue_plain)
qed

lemma decoder_4:
  assumes "a \<le> 4" and "b < 64" and "c < 64" and "m < 64"
    and "a = 0 \<longrightarrow> 16 \<le> b" and "a = 4 \<longrightarrow> b < 16"
  shows "utf8_decoder 0 0 0 0x80 0xBF
       ((0xF0 + a) # (0x80 + b) # (0x80 + c) # (0x80 + m) # rest)
     = Some (((a * 64 + b) * 64 + c) * 64 + m) # utf8_decoder 0 0 0 0x80 0xBF rest"
proof -
  let ?lo = "if a = 0 then 0x90 else (0x80::nat)"
  let ?hi = "if a = 4 then 0x8F else (0xBF::nat)"
  have am: "(0xF0 + a) mod 8 = a" using mod_offset [of a 8 30] assms(1) by simp
  have lo: "?lo \<le> 0x80 + b" using assms(5) by simp
  have hi: "0x80 + b \<le> ?hi" using assms(2,6) by auto
  have "utf8_decoder 0 0 0 0x80 0xBF ((0xF0 + a) # bs) = utf8_decoder 3 0 a ?lo ?hi bs" for bs
    using assms(1) by (simp add: utf8_decoder.simps(2) am)
  moreover have "utf8_decoder 3 0 a ?lo ?hi ((0x80 + b) # bs)
      = utf8_decoder 3 1 (a * 64 + b) 0x80 0xBF bs" for bs
    using decoder_continue [OF _ assms(2) lo hi, of 3 0 a bs] by simp
  ultimately show ?thesis using assms(3,4) by (simp add: decoder_continue_plain)
qed

lemma div_4096: "(cp::nat) div 4096 = cp div 64 div 64"
  by (simp add: div_mult2_eq [symmetric])

lemma div_262144: "(cp::nat) div 262144 = cp div 64 div 64 div 64"
  by (simp add: div_mult2_eq [symmetric])

lemma decode_2:
  assumes "\<not> cp \<le> 0x7F" and "cp \<le> 0x7FF"
  shows "utf8_decoder 0 0 0 0x80 0xBF (utf8_encode cp @ rest)
     = Some cp # utf8_decoder 0 0 0 0x80 0xBF rest"
proof -
  have a: "2 \<le> cp div 64" "cp div 64 < 32" using assms by simp_all
  have e: "utf8_encode cp = [0xC0 + cp div 64, 0x80 + cp mod 64]"
    unfolding utf8_encode_def using assms by (simp only: if_False if_True)
  have m: "cp mod 64 < 64" by simp
  have v: "cp div 64 * 64 + cp mod 64 = cp" by (rule div_mult_mod_eq)
  show ?thesis
    unfolding e using decoder_2 [OF a m, of rest] by (simp only: v append.simps)
qed

lemma div_lt_864: "(cp::nat) < 55296 \<Longrightarrow> cp div 64 < 864"
  by (simp add: less_mult_imp_div_less)

lemma div_ge_896: "(57344::nat) \<le> cp \<Longrightarrow> 896 \<le> cp div 64"
  by (simp add: le_div_geq)

lemma decode_3:
  assumes "\<not> cp \<le> 0x7FF" and "cp \<le> 0xFFFF" and "\<not> (0xD800 \<le> cp \<and> cp \<le> 0xDFFF)"
  shows "utf8_decoder 0 0 0 0x80 0xBF (utf8_encode cp @ rest)
     = Some cp # utf8_decoder 0 0 0 0x80 0xBF rest"
proof -
  define q where "q = cp div 64"
  define m where "m = cp mod 64"
  define a where "a = q div 64"
  define b where "b = q mod 64"
  have q: "32 \<le> q" "q < 1024" using assms(1,2) by (simp_all add: q_def)
  have b: "b < 64" and m: "m < 64" by (simp_all add: b_def m_def)
  have s: "a * 64 + b = q" unfolding a_def b_def by (rule div_mult_mod_eq)
  have v: "q * 64 + m = cp" unfolding q_def m_def by (rule div_mult_mod_eq)
  have a: "a < 16" using q(2) s by linarith
  have lo: "a = 0 \<longrightarrow> 32 \<le> b" using q(1) s by auto
  have "q < 864 \<or> 896 \<le> q"
  proof (cases "cp < 0xD800")
    case True
    then have "cp div 64 < 864" by (rule div_lt_864)
    then show ?thesis unfolding q_def by (rule disjI1)
  next
    case False
    then have "57344 \<le> cp" using assms(3) by simp
    then have "896 \<le> cp div 64" by (rule div_ge_896)
    then show ?thesis unfolding q_def by (rule disjI2)
  qed
  then have hi: "a = 13 \<longrightarrow> b < 32" using s b by linarith
  have d: "cp div 4096 = a" unfolding a_def q_def by (rule div_4096)
  have "\<not> cp \<le> 0x7F" using assms(1) by simp
  then have "utf8_encode cp = [0xE0 + cp div 4096, 0x80 + cp div 64 mod 64, 0x80 + cp mod 64]"
    unfolding utf8_encode_def using assms(1,2) by (simp only: if_False if_True)
  then have e: "utf8_encode cp = [0xE0 + a, 0x80 + b, 0x80 + m]"
    by (simp only: d q_def [symmetric] b_def [symmetric] m_def [symmetric])
  show ?thesis
    unfolding e using decoder_3 [OF a b m lo hi, of rest] by (simp only: s v append.simps)
qed

lemma decode_4:
  assumes "\<not> cp \<le> 0xFFFF" and "cp \<le> 0x10FFFF"
  shows "utf8_decoder 0 0 0 0x80 0xBF (utf8_encode cp @ rest)
     = Some cp # utf8_decoder 0 0 0 0x80 0xBF rest"
proof -
  define q where "q = cp div 64"
  define m where "m = cp mod 64"
  define p where "p = q div 64"
  define c where "c = q mod 64"
  define a where "a = p div 64"
  define b where "b = p mod 64"
  have q: "1024 \<le> q" "q < 17408" using assms by (simp_all add: q_def)
  have p: "16 \<le> p" "p < 272" using q by (simp_all add: p_def)
  have b: "b < 64" and c: "c < 64" and m: "m < 64" by (simp_all add: b_def c_def m_def)
  have s: "a * 64 + b = p" unfolding a_def b_def by (rule div_mult_mod_eq)
  have t: "p * 64 + c = q" unfolding p_def c_def by (rule div_mult_mod_eq)
  have v: "q * 64 + m = cp" unfolding q_def m_def by (rule div_mult_mod_eq)
  have a: "a \<le> 4" using p(2) s by linarith
  have lo: "a = 0 \<longrightarrow> 16 \<le> b" using p(1) s by auto
  have hi: "a = 4 \<longrightarrow> b < 16" using p(2) s by linarith
  have d1: "cp div 4096 = p" unfolding p_def q_def by (rule div_4096)
  have d2: "cp div 262144 = a" unfolding a_def p_def q_def by (rule div_262144)
  have "\<not> cp \<le> 0x7F" and "\<not> cp \<le> 0x7FF" using assms(1) by simp_all
  then have "utf8_encode cp = [0xF0 + cp div 262144, 0x80 + cp div 4096 mod 64,
      0x80 + cp div 64 mod 64, 0x80 + cp mod 64]"
    unfolding utf8_encode_def using assms(1) by (simp only: if_False)
  then have e: "utf8_encode cp = [0xF0 + a, 0x80 + b, 0x80 + c, 0x80 + m]"
    by (simp only: d1 d2 q_def [symmetric] b_def [symmetric] c_def [symmetric]
        m_def [symmetric])
  show ?thesis
    unfolding e using decoder_4 [OF a b c m lo hi, of rest] by (simp only: s t v append.simps)
qed

lemma decode_scalar:
  assumes "is_scalar_value cp"
  shows "utf8_decoder 0 0 0 0x80 0xBF (utf8_encode cp @ rest)
     = Some cp # utf8_decoder 0 0 0 0x80 0xBF rest"
proof -
  consider "cp \<le> 0x7F" | "\<not> cp \<le> 0x7F" "cp \<le> 0x7FF" | "\<not> cp \<le> 0x7FF" "cp \<le> 0xFFFF"
    | "\<not> cp \<le> 0xFFFF" by linarith
  then show ?thesis
  proof cases
    case 1
    then show ?thesis by (simp add: utf8_encode_def decoder_1)
  next
    case 2
    then show ?thesis by (rule decode_2)
  next
    case 3
    then show ?thesis using assms by (intro decode_3) (simp_all add: is_scalar_value_def)
  next
    case 4
    then show ?thesis using assms by (intro decode_4) (simp_all add: is_scalar_value_def)
  qed
qed

lemma decode_encode_scalars:
  "\<forall>cp \<in> set cps. is_scalar_value cp \<Longrightarrow>
   utf8_decoder 0 0 0 0x80 0xBF (concat (map utf8_encode cps)) = map Some cps"
  by (induction cps) (simp_all add: decode_scalar)

lemma take1_utf16_string:
  assumes "\<forall>cp \<in> set cps. is_scalar_value cp"
  shows "(take 1 (utf16_string cps) = [0xFEFF]) = (take 1 cps = [0xFEFF])"
    and "take 1 cps = [0xFEFF] \<Longrightarrow> drop 1 (utf16_string cps) = utf16_string (drop 1 cps)"
proof -
  show "(take 1 (utf16_string cps) = [0xFEFF]) = (take 1 cps = [0xFEFF])"
  proof (cases cps)
    case Nil
    then show ?thesis by (simp add: utf16_string_def)
  next
    case (Cons cp rest)
    show ?thesis
    proof (cases "cp < 0x10000")
      case True
      then show ?thesis using Cons by (simp add: utf16_string_def utf16_units_def)
    next
      case False
      have "is_scalar_value cp" using assms Cons by simp
      then have "is_lead (0xD800 + (cp - 0x10000) div 0x400)"
        using False by (rule scalar_pair(1))
      then have "0xD800 + (cp - 0x10000) div 0x400 \<noteq> 0xFEFF"
        by (auto simp add: is_lead_def)
      moreover have "cp \<noteq> 0xFEFF" using False by auto
      ultimately show ?thesis using Cons False by (simp add: utf16_string_def utf16_units_def)
    qed
  qed
  show "drop 1 (utf16_string cps) = utf16_string (drop 1 cps)" if "take 1 cps = [0xFEFF]"
    using that by (cases cps) (simp_all add: utf16_string_def utf16_units_def)
qed

lemma replace_errors_Some:
  "map (\<lambda>item. case item of None \<Rightarrow> 0xFFFD | Some c \<Rightarrow> c) (map Some cps) = cps"
  by (induction cps) simp_all

text \<open>
  C5. For every text (a sequence of scalar values, so a string without lone surrogates),
  decoding the UTF-8 bytes of its string gives the string again, except that a byte order
  mark U+FEFF at the very start is dropped by the decoder.
\<close>

theorem decode_encode_round_trip:
  assumes "\<forall>cp \<in> set cps. is_scalar_value cp"
  shows "TextDecoder_decode False (utf8Bytes (utf16_string cps)) =
     Inr (if take 1 (utf16_string cps) = [0xFEFF] then drop 1 (utf16_string cps)
          else utf16_string cps)"
proof -
  have "utf8Bytes (utf16_string cps) = concat (map utf8_encode cps)"
    using assms by (simp add: utf8Bytes_def TextEncoder_encode_def toUSVString_utf16_string)
  then have "utf8_decoder 0 0 0 0x80 0xBF (utf8Bytes (utf16_string cps)) = map Some cps"
    using assms by (simp add: decode_encode_scalars)
  then have "TextDecoder_decode False (utf8Bytes (utf16_string cps)) =
     Inr (utf16_string (if take 1 cps = [0xFEFF] then drop 1 cps else cps))"
    by (simp only: TextDecoder_decode_def Let_def replace_errors_Some) simp
  then show ?thesis
    using take1_utf16_string [OF assms] by (cases "take 1 cps = [0xFEFF]") simp_all
qed

theorem decode_encode_round_trip_witness:
  "is_scalar_value 72 \<and> is_scalar_value 0x1F44B \<and>
   TextDecoder_decode False (utf8Bytes (utf16_string [72, 0x1F44B]))
     = Inr (utf16_string [72, 0x1F44B])"
proof -
  have h: "\<forall>cp \<in> set [72, 0x1F44B :: nat]. is_scalar_value cp"
    by (simp add: is_scalar_value_def)
  show ?thesis
    using h decode_encode_round_trip [OF h] by (simp add: utf16_string_def utf16_units_def)
qed

text \<open>
  C5, as the specification words it, fails for the text U+FEFF, "H": the decoder drops
  the byte order mark.
\<close>

theorem decode_encode_bom_counterexample:
  "is_scalar_value 0xFEFF \<and> is_scalar_value 72 \<and>
   TextDecoder_decode False (utf8Bytes (utf16_string [0xFEFF, 72])) = Inr (utf16_string [72]) \<and>
   TextDecoder_decode False (utf8Bytes (utf16_string [0xFEFF, 72]))
     \<noteq> Inr (utf16_string [0xFEFF, 72])"
proof -
  have s: "utf16_string [0xFEFF, 72] = [0xFEFF, 72]" "utf16_string [72] = [72]"
    by (simp_all add: utf16_string_def utf16_units_def)
  have b: "utf8Bytes [0xFEFF, 72] = [0xEF, 0xBB, 0xBF, 0x48]"
    by (simp add: utf8Bytes_def TextEncoder_encode_def utf8_encode_def is_lead_def is_trail_def)
  have d: "utf8_decoder 0 0 0 0x80 0xBF [0xEF, 0xBB, 0xBF, 0x48] = [Some 0xFEFF, Some 72]"
    by (simp add: utf8_decoder.simps(2))
  have "TextDecoder_decode False [0xEF, 0xBB, 0xBF, 0x48] = Inr [72]"
    by (simp add: TextDecoder_decode_def d Let_def s)
  then show ?thesis by (simp add: s b is_scalar_value_def)
qed

section \<open>The decoder tool on malformed bytes\<close>

lemma hex_bytes_FF_FE: "hex_bytes ''FF FE'' = [0xFF, 0xFE]"
  by (simp add: hex_bytes_def replace_non_hex_def is_hex_def trim_def is_space_def
      toUint8_def parseInt_def Let_def is_digit_def digit_val_def digits_value_def)

lemma hex_bytes_Hello: "hex_bytes ''48 65 6C 6C 6F'' = [0x48, 0x65, 0x6C, 0x6C, 0x6F]"
  by (simp add: hex_bytes_def replace_non_hex_def is_hex_def trim_def is_space_def
      toUint8_def parseInt_def Let_def is_digit_def digit_val_def digits_value_def)

lemma decoder_tool_Hello:
  "DecoderTool_effect ''48 65 6C 6C 6F'' = \<lparr>decoded = map of_char ''Hello'', error = ''''\<rparr>"
proof -
  have "utf8_decoder 0 0 0 0x80 0xBF [0x48, 0x65, 0x6C, 0x6C, 0x6F]
      = [Some 0x48, Some 0x65, Some 0x6C, Some 0x6C, Some 0x6F]"
    by (simp add: utf8_decoder.simps(2))
  then have "TextDecoder_decode False [0x48, 0x65, 0x6C, 0x6C, 0x6F]
      = Inr [0x48, 0x65, 0x6C, 0x6C, 0x6F]"
    by (simp add: TextDecoder_decode_def Let_def utf16_string_def utf16_units_def)
  then show ?thesis by (simp add: DecoderTool_effect_def hex_bytes_Hello)
qed

lemma decoder_tool_never_reports: "error (DecoderTool_effect hexInput) = ''''"
  by (simp add: DecoderTool_effect_def TextDecoder_decode_def Let_def)


lemma fatal_decoder_would_throw: "TextDecoder_decode True [0xFF, 0xFE] = Inl TypeError"
  by (simp add: TextDecoder_decode_def utf8_decoder.simps(2))

text \<open>
  C1. The bytes \<open>FF FE\<close> are not UTF-8. The tool reports no error for them: the decoded
  text is two replacement characters U+FFFD and the error message stays empty.
\<close>

theorem decoder_tool_substitutes_replacement:
  "DecoderTool_effect ''FF FE'' = \<lparr>decoded = [0xFFFD, 0xFFFD], error = ''''\<rparr>"
proof -
  have d: "utf8_decoder 0 0 0 0x80 0xBF [0xFF, 0xFE] = [None, None]"
    by (simp add: utf8_decoder.simps(2))
  have "TextDecoder_decode False [0xFF, 0xFE] = Inr [0xFFFD, 0xFFFD]"
    by (simp add: TextDecoder_decode_def d Let_def utf16_string_def utf16_units_def)
  then show ?thesis by (simp add: DecoderTool_effect_def hex_bytes_FF_FE)
qed

section \<open>Formatting and parsing the value\<close>

lemma digit_val_digit_char: "d < 36 \<Longrightarrow> digit_val (digit_char d) = Some d"
  by (auto simp add: digit_val_def digit_char_def Let_def)

lemma digit_val_upper:
  "digit_val (if 97 \<le> (of_char c :: nat) \<and> (of_char c :: nat) \<le> 122
              then char_of ((of_char c :: nat) - 32) else c) = digit_val c"
  by (auto simp add: digit_val_def Let_def)

lemma is_digit_digit_char: "d < R \<Longrightarrow> R \<le> 36 \<Longrightarrow> is_digit R (digit_char d)"
  by (simp add: is_digit_def digit_val_digit_char)

lemma digits_value_snoc:
  "digits_value R (Z @ [c]) =
     (case digit_val c of Some d \<Rightarrow> digits_value R Z * R + d | None \<Rightarrow> digits_value R Z)"
  unfolding digits_value_def by simp

lemma digits_value_digits_of:
  "2 \<le> R \<Longrightarrow> R \<le> 36 \<Longrightarrow> digits_value R (digits_of R u) = u"
proof (induction R u rule: digits_of.induct)
  case (1 radix u)
  show ?case
  proof (cases "u < radix")
    case True
    then have "u < 36" using "1.prems" by simp
    then show ?thesis
      using True by (simp add: digits_of.simps [of radix u] digits_value_def digit_val_digit_char)
  next
    case False
    then have c: "\<not> (radix < 2 \<or> u < radix)" using "1.prems" by simp
    have m: "u mod radix < 36" using "1.prems" by (simp add: less_le_trans [of _ radix])
    have "digits_value radix (digits_of radix (u div radix)) = u div radix"
      using "1.IH" [OF c] "1.prems" by simp
    then show ?thesis
      using c m by (simp add: digits_of.simps [of radix u] digits_value_snoc digit_val_digit_char)
  qed
qed

lemma digits_of_digits:
  "2 \<le> R \<Longrightarrow> R \<le> 36 \<Longrightarrow> c \<in> set (digits_of R u) \<Longrightarrow> is_digit R c"
proof (induction R u rule: digits_of.induct)
  case (1 radix u)
  show ?case
  proof (cases "u < radix")
    case True
    then show ?thesis
      using "1.prems" by (simp add: digits_of.simps [of radix u] is_digit_digit_char)
  next
    case False
    then have c: "\<not> (radix < 2 \<or> u < radix)" using "1.prems" by simp
    have m: "is_digit radix (digit_char (u mod radix))"
      using "1.prems" by (intro is_digit_digit_char) simp_all
    show ?thesis
      using "1.IH" [OF c] "1.prems" c m by (auto simp add: digits_of.simps [of radix u])
  qed
qed

lemma digits_of_nonempty: "digits_of R u \<noteq> []"
  by (simp add: digits_of.simps [of R u])

lemma is_digit_not_space: "is_digit R c \<Longrightarrow> \<not> is_space c"
  by (auto simp add: is_digit_def digit_val_def is_space_def Let_def split: if_splits)

lemma is_digit_not_sign: "is_digit R c \<Longrightarrow> c \<noteq> CHR ''-'' \<and> c \<noteq> CHR ''+''"
  by (auto simp add: is_digit_def digit_val_def Let_def)

lemma is_digit_16_not_x: "is_digit 16 c \<Longrightarrow> c \<noteq> CHR ''x'' \<and> c \<noteq> CHR ''X''"
  by (auto simp add: is_digit_def digit_val_def Let_def)

lemma dropWhile_no_space: "\<forall>c \<in> set s. \<not> is_space c \<Longrightarrow> dropWhile is_space s = s"
  by (cases s) simp_all

lemma trim_no_space: "\<forall>c \<in> set s. \<not> is_space c \<Longrightarrow> trim s = s"
  by (simp add: trim_def dropWhile_no_space)

lemma no_hex_prefix:
  assumes "\<forall>c \<in> set s. is_digit 16 c"
  shows "take 2 s \<noteq> ''0x'' \<and> take 2 s \<noteq> ''0X''"
proof (cases s)
  case Nil
  then show ?thesis by simp
next
  case (Cons a t)
  show ?thesis
  proof (cases t)
    case Nil
    then show ?thesis using Cons by simp
  next
    case (Cons b u)
    then have "is_digit 16 b" using assms \<open>s = a # t\<close> by simp
    then have "b \<noteq> CHR ''x'' \<and> b \<noteq> CHR ''X''" by (rule is_digit_16_not_x)
    then show ?thesis using Cons \<open>s = a # t\<close> by simp
  qed
qed

lemma parseInt_digits:
  assumes "2 \<le> R" and "R \<le> 36" and "s \<noteq> []" and "\<forall>c \<in> set s. is_digit R c"
  shows "parseInt s R = Num (int (digits_value R s))"
proof -
  have sp: "dropWhile is_space s = s"
    using assms(4) by (intro dropWhile_no_space) (auto dest: is_digit_not_space)
  obtain a t where s: "s = a # t" using assms(3) by (cases s) auto
  then have "is_digit R a" using assms(4) by simp
  then have "a \<noteq> CHR ''-'' \<and> a \<noteq> CHR ''+''" by (rule is_digit_not_sign)
  then have sg: "take 1 s \<noteq> ''-''" "take 1 s \<noteq> ''+''" using s by simp_all
  have px: "R = 16 \<longrightarrow> take 2 s \<noteq> ''0x'' \<and> take 2 s \<noteq> ''0X''"
    using assms(4) no_hex_prefix by blast
  have z: "takeWhile (is_digit R) s = s" using assms(4) by (simp add: takeWhile_eq_all_conv)
  have r: "\<not> (R \<noteq> 0 \<and> (R < 2 \<or> 36 < R))" "R \<noteq> 0" using assms(1,2) by simp_all
  show ?thesis
  proof (cases "R = 16")
    case True
    have z16: "takeWhile (is_digit 16) s = s" using z True by simp
    have p16: "take 2 s \<noteq> ''0x''" "take 2 s \<noteq> ''0X''" using px True by simp_all
    show ?thesis
      unfolding parseInt_def Let_def sp using sg p16 assms(3) by (simp add: True z16)
  next
    case False
    show ?thesis
      unfolding parseInt_def Let_def sp using sg r False assms(3) by (simp add: z)
  qed
qed

lemma parseFromBase_digits:
  assumes "2 \<le> R" and "R \<le> 36" and "s \<noteq> []" and "\<forall>c \<in> set s. is_digit R c"
  shows "parseFromBase s R = Num (int (digits_value R s))"
proof -
  have "trim s = s" using assms(4) by (intro trim_no_space) (auto dest: is_digit_not_space)
  then show ?thesis using assms by (simp add: parseFromBase_def parseInt_digits)
qed

lemma digit_val_zero: "digit_val (CHR ''0'') = Some 0"
  by (simp add: digit_val_def)

lemma digits_value_zeros: "digits_value R (replicate k (CHR ''0'') @ s) = digits_value R s"
proof -
  have "foldl (\<lambda>acc c. case digit_val c of Some d \<Rightarrow> acc * R + d | None \<Rightarrow> acc) 0
      (replicate k (CHR ''0'')) = 0"
    by (induction k) (simp_all add: digit_val_zero)
  then show ?thesis unfolding digits_value_def by simp
qed

lemma digits_value_padLeft: "digits_value R (padLeft s len) = digits_value R s"
  by (simp add: padLeft_def digits_value_zeros)

lemma digits_padLeft:
  assumes "1 \<le> R" and "\<forall>c \<in> set s. is_digit R c"
  shows "\<forall>c \<in> set (padLeft s len). is_digit R c"
proof -
  have "is_digit R (CHR ''0'')" using assms(1) by (simp add: is_digit_def digit_val_zero)
  then show ?thesis using assms(2) by (auto simp add: padLeft_def)
qed

lemma padLeft_nonempty: "s \<noteq> [] \<Longrightarrow> padLeft s len \<noteq> []"
  by (simp add: padLeft_def)

lemma digits_value_toUpperCase: "digits_value R (toUpperCase s) = digits_value R s"
proof -
  have "foldl (\<lambda>acc c. case digit_val c of Some d \<Rightarrow> acc * R + d | None \<Rightarrow> acc) a
          (toUpperCase s)
      = foldl (\<lambda>acc c. case digit_val c of Some d \<Rightarrow> acc * R + d | None \<Rightarrow> acc) a s" for a
    unfolding toUpperCase_def
    by (induction s arbitrary: a) (simp_all only: list.map foldl.simps digit_val_upper)
  then show ?thesis unfolding digits_value_def by simp
qed

lemma digits_toUpperCase:
  assumes "\<forall>c \<in> set s. is_digit R c"
  shows "\<forall>c \<in> set (toUpperCase s). is_digit R c"
  using assms unfolding toUpperCase_def is_digit_def
  by (auto simp only: set_map digit_val_upper)

lemma strip_spaces_dropWhile: "strip_spaces (dropWhile is_space s) = strip_spaces s"
  by (induction s) (simp_all add: strip_spaces_def)

lemma strip_spaces_rev: "strip_spaces (rev s) = rev (strip_spaces s)"
  by (simp add: strip_spaces_def rev_filter)

lemma strip_spaces_trim: "strip_spaces (trim s) = strip_spaces s"
  by (simp add: trim_def strip_spaces_rev strip_spaces_dropWhile)

lemma strip_spaces_append: "strip_spaces (s @ t) = strip_spaces s @ strip_spaces t"
  by (simp add: strip_spaces_def)

lemma is_space_space: "is_space (CHR '' '')"
  by (simp add: is_space_def)

lemma strip_spaces_space: "strip_spaces (CHR '' '' # t) = strip_spaces t"
  by (simp add: strip_spaces_def is_space_space)

lemma strip_spaces_interleave:
  "strip_spaces (concat (map (\<lambda>c. [CHR '' '', c]) s)) = strip_spaces s"
  by (induction s) (simp_all add: strip_spaces_def is_space_space)

lemma strip_spaces_group_chunks: "strip_spaces (group_chunks s n) = strip_spaces s"
proof (induction s n rule: group_chunks.induct)
  case (1 s n)
  show ?case
  proof (cases "n = 0")
    case True
    have "strip_spaces '' '' = []" by (simp add: strip_spaces_def is_space_space)
    then show ?thesis
      using True
      by (simp add: group_chunks.simps [of s 0] strip_spaces_append strip_spaces_interleave)
  next
    case n: False
    show ?thesis
    proof (cases "n \<le> length s \<and> (\<forall>c \<in> set (take n s). \<not> is_line_terminator c)")
      case True
      have g: "group_chunks s n = take n s @ '' '' @ group_chunks (drop n s) n"
        by (subst group_chunks.simps) (use n True in simp)
      have "strip_spaces (group_chunks (drop n s) n) = strip_spaces (drop n s)"
        using "1.IH"(1) [OF n True] .
      moreover have "strip_spaces (take n s) @ strip_spaces (drop n s) = strip_spaces s"
        by (simp add: strip_spaces_append [symmetric])
      ultimately show ?thesis
        by (simp add: g strip_spaces_append strip_spaces_space)
    next
      case False
      have g: "group_chunks s n = (case s of [] \<Rightarrow> [] | c # cs \<Rightarrow> c # group_chunks cs n)"
        by (subst group_chunks.simps) (simp only: n False if_False)
      show ?thesis
      proof (cases s)
        case Nil
        then show ?thesis unfolding g by simp
      next
        case (Cons c cs)
        have "strip_spaces (group_chunks cs n) = strip_spaces cs"
          using "1.IH"(2) [OF n False Cons] .
        then show ?thesis unfolding g using Cons by (simp add: strip_spaces_def)
      qed
    qed
  qed
qed

lemma strip_spaces_groupEvery: "strip_spaces (groupEvery s n) = strip_spaces s"
  by (simp add: groupEvery_def strip_spaces_trim strip_spaces_group_chunks)

lemma strip_spaces_digits:
  "\<forall>c \<in> set s. is_digit R c \<Longrightarrow> strip_spaces s = s"
  by (auto simp add: strip_spaces_def filter_id_conv dest: is_digit_not_space)

lemma toString_nonneg: "0 \<le> v \<Longrightarrow> toString v R = digits_of R (nat v)"
  by (simp add: toString_def)

text \<open>
  C4. For every unsigned value \<open>v\<close> (so for every \<open>v\<close> in the range of a width 8, 16
  or 32) and every width, parsing the content of a field in its base gives \<open>v\<close> back:
  the decimal field in base 10, the hex field \<open>toHex\<close> in base 16, and the binary field
  \<open>groupEvery(toBin, 4)\<close> in base 2 after the white space is stripped, as
  \<open>setFromBinary\<close> does.
\<close>

theorem parse_format_round_trip:
  assumes "0 \<le> v"
  shows "parseFromBase (decimalField v) 10 = Num v \<and>
     parseFromBase (toHex v bits) 16 = Num v \<and>
     parseFromBase (strip_spaces (binaryField v bits)) 2 = Num v"
proof -
  have v: "int (nat v) = v" using assms by simp
  have dec: "parseFromBase (decimalField v) 10 = Num v"
  proof -
    have "\<forall>c \<in> set (digits_of 10 (nat v)). is_digit 10 c"
      by (auto intro: digits_of_digits)
    then have "parseFromBase (digits_of 10 (nat v)) 10
        = Num (int (digits_value 10 (digits_of 10 (nat v))))"
      by (intro parseFromBase_digits) (simp_all add: digits_of_nonempty)
    then show ?thesis
      using assms by (simp add: decimalField_def toString_nonneg digits_value_digits_of)
  qed
  have hex: "parseFromBase (toHex v bits) 16 = Num v"
  proof -
    let ?s = "padLeft (toUpperCase (digits_of 16 (nat v))) (nat \<lceil>(of_nat bits :: rat) / 4\<rceil>)"
    have "\<forall>c \<in> set (digits_of 16 (nat v)). is_digit 16 c"
      by (auto intro: digits_of_digits)
    then have "\<forall>c \<in> set (toUpperCase (digits_of 16 (nat v))). is_digit 16 c"
      by (rule digits_toUpperCase)
    then have d: "\<forall>c \<in> set ?s. is_digit 16 c" by (intro digits_padLeft) simp_all
    have "toUpperCase (digits_of 16 (nat v)) \<noteq> []"
      by (simp add: toUpperCase_def digits_of_nonempty)
    then have ne: "?s \<noteq> []" by (rule padLeft_nonempty)
    have "parseFromBase ?s 16 = Num (int (digits_value 16 ?s))"
      using d ne by (intro parseFromBase_digits) simp_all
    also have "digits_value 16 ?s = nat v"
      by (simp add: digits_value_padLeft digits_value_toUpperCase digits_value_digits_of)
    finally show ?thesis using assms by (simp add: toHex_def toString_nonneg)
  qed
  have bin: "parseFromBase (strip_spaces (binaryField v bits)) 2 = Num v"
  proof -
    let ?s = "padLeft (digits_of 2 (nat v)) bits"
    have "\<forall>c \<in> set (digits_of 2 (nat v)). is_digit 2 c"
      by (auto intro: digits_of_digits)
    then have d: "\<forall>c \<in> set ?s. is_digit 2 c" by (intro digits_padLeft) simp_all
    have ne: "?s \<noteq> []" by (intro padLeft_nonempty digits_of_nonempty)
    have "strip_spaces (groupEvery ?s 4) = ?s"
      using d by (simp only: strip_spaces_groupEvery strip_spaces_digits)
    moreover have "parseFromBase ?s 2 = Num (int (digits_value 2 ?s))"
      using d ne by (intro parseFromBase_digits) simp_all
    moreover have "digits_value 2 ?s = nat v"
      by (simp add: digits_value_padLeft digits_value_digits_of)
    ultimately show ?thesis
      using assms by (simp add: binaryField_def toBin_def toString_nonneg)
  qed
  show ?thesis using dec hex bin by blast
qed

text \<open>The examples of the specification for 200 at 8 bits.\<close>

lemma toHex_200: "toHex 200 8 = ''C8''"
  by (simp add: toHex_def toString_def padLeft_def toUpperCase_def digit_char_def
      digits_of.simps [of 16 200] digits_of.simps [of 16 12] char_of_eq_iff)

lemma toBin_200: "toBin 200 8 = ''11001000''"
  by (simp add: toBin_def toString_def padLeft_def digit_char_def digits_of.simps
      char_of_eq_iff)

lemma binaryField_200: "binaryField 200 8 = ''1100 1000''"
  by (simp add: binaryField_def toBin_200 groupEvery_def group_chunks.simps
      is_line_terminator_def trim_def is_space_def)

lemma toHex_65000: "toHex 65000 16 = ''FDE8''"
  by (simp add: toHex_def toString_def padLeft_def toUpperCase_def digit_char_def
      digits_of.simps char_of_eq_iff)

theorem parse_format_round_trip_witness:
  "(0::int) \<le> 200 \<and> toHex 200 8 = ''C8'' \<and> parseFromBase ''C8'' 16 = Num 200 \<and>
   binaryField 200 8 = ''1100 1000'' \<and> parseFromBase (strip_spaces ''1100 1000'') 2 = Num 200"
proof -
  have h: "(0::int) \<le> 200" by simp
  show ?thesis
    using parse_format_round_trip [OF h, of 8] by (simp add: toHex_200 binaryField_200)
qed

end
